theory Spec2Isabelle
  imports Main "HOL-Library.Sublist" "HOL-Library.Char_ord" "HOL-Library.List_Lexorder"
    "HOL-Library.AList"
begin

chapter \<open>ANAC open-data downloader: URL catalogue and CSV consolidation\<close>

text \<open>
  A shallow embedding of \<^verbatim>\<open>01_anac_od_download.py\<close>: the URL generator
  \<^verbatim>\<open>url_generate\<close>, the nested helper \<^verbatim>\<open>normalize_prefix\<close> and the
  consolidation routine \<^verbatim>\<open>merge_csv_files\<close>, together with the part of \<^verbatim>\<open>main\<close>
  that expands the pattern set once per dataset name.

  Conventions of the model.
  \<^item> A Python \<^verbatim>\<open>str\<close> is a \<^typ>\<open>string\<close>; a \<^typ>\<open>char\<close> stands for one code point
    below 256 (Latin-1), compared by its code. Text outside that range is not covered.
  \<^item> A Python \<^verbatim>\<open>int\<close> is an \<^typ>\<open>int\<close>. The interpreter's configurable limit on the
    length of integer/string conversions is not modelled.
  \<^item> Every exception the code can raise is a value of \<open>py_error\<close>; a function that may
    raise returns \<open>py_error + 'a\<close> with \<open>Inl\<close> for the exception.
  \<^item> The file system is an explicit store (POSIX behaviour, no symbolic links, no
    permission or device errors, text decodable in the locale's encoding).
\<close>

section \<open>Definitions\<close>

subsection \<open>Exceptions\<close>

datatype py_error =
    ValueError
  | FileExistsError
  | NotADirectoryError
  | IsADirectoryError
  | FileNotFoundError

subsection \<open>Library functions used by \<^verbatim>\<open>url_generate\<close>\<close>

text \<open>Decimal digits \<^verbatim>\<open>0\<close> to \<^verbatim>\<open>9\<close>: the only decimal digits below code point 256.\<close>

definition is_digit :: "char \<Rightarrow> bool" where
  "is_digit c = (c \<in> set ''0123456789'')"

text \<open>
  The white space that \<^verbatim>\<open>int\<close> strips around a literal: tab, line feed, vertical
  tab, form feed, carriage return and space, and above code point 127 the Unicode white
  space, which below 256 is NEL (133) and the no-break space (160).
\<close>

definition py_int_space :: "char \<Rightarrow> bool" where
  "py_int_space c = ((of_char c :: nat) \<in> {9, 10, 11, 12, 13, 32, 133, 160})"

definition py_int_strip :: "string \<Rightarrow> string" where
  "py_int_strip s = rev (dropWhile py_int_space (rev (dropWhile py_int_space s)))"

text \<open>
  The digit part of an integer literal accepted by \<^verbatim>\<open>int(str)\<close>: digits, with single
  underscores allowed between two digits. The flag says whether the previous character
  was a digit.
\<close>

fun digits_ok :: "bool \<Rightarrow> string \<Rightarrow> bool" where
  "digits_ok prev [] = prev"
| "digits_ok prev (c # cs) =
     (if is_digit c then digits_ok True cs
      else if c = CHR ''_'' \<and> prev then digits_ok False cs
      else False)"

definition digit_val :: "char \<Rightarrow> nat" where
  "digit_val c = of_char c - 48"

definition dec_value :: "string \<Rightarrow> nat" where
  "dec_value ds = foldl (\<lambda>a c. 10 * a + digit_val c) 0 ds"

text \<open>
  \<^verbatim>\<open>int(s)\<close> for a string \<open>s\<close>: surrounding white space is stripped, one sign is
  allowed, the rest must be a digit part. \<open>None\<close> stands for \<^verbatim>\<open>ValueError\<close>.
\<close>

definition py_int :: "string \<Rightarrow> int option" where
  "py_int s =
     (let t = py_int_strip s;
          neg = (t \<noteq> [] \<and> hd t = CHR ''-'');
          ds = (if t \<noteq> [] \<and> (hd t = CHR ''-'' \<or> hd t = CHR ''+'') then tl t else t)
      in if digits_ok False ds
         then Some ((if neg then - 1 else 1) * int (dec_value (filter is_digit ds)))
         else None)"

definition digit_char :: "nat \<Rightarrow> char" where
  "digit_char d = ''0123456789'' ! d"

fun dec_digits :: "nat \<Rightarrow> string" where
  "dec_digits n =
     (if n < 10 then [digit_char n] else dec_digits (n div 10) @ [digit_char (n mod 10)])"

declare dec_digits.simps [simp del]

definition zfill :: "nat \<Rightarrow> string \<Rightarrow> string" where
  "zfill w s = replicate (w - length s) CHR ''0'' @ s"

text \<open>
  The format specification \<^verbatim>\<open>0w\<close> of an f-string applied to an integer
  (\<^verbatim>\<open>f"{n:04}"\<close> is \<open>py_format_int 4 n\<close>): the sign comes first and counts in the width,
  zeros fill up to the width, longer numbers are not cut.
\<close>

definition py_format_int :: "nat \<Rightarrow> int \<Rightarrow> string" where
  "py_format_int w n =
     (if n < 0 then CHR ''-'' # zfill (w - 1) (dec_digits (nat (- n)))
      else zfill w (dec_digits (nat n)))"

text \<open>
  \<^verbatim>\<open>s.replace(old, new)\<close>: every occurrence of \<open>old\<close>, found from the left and
  not overlapping, is replaced. With an empty \<open>old\<close> Python inserts \<open>new\<close> before every
  character and at the end.
\<close>

fun py_replace :: "string \<Rightarrow> string \<Rightarrow> string \<Rightarrow> string" where
  "py_replace old new [] = (if old = [] then new else [])"
| "py_replace old new (c # cs) =
     (if old = [] then new @ c # py_replace old new cs
      else if prefix old (c # cs) then new @ py_replace old new (drop (length old) (c # cs))
      else c # py_replace old new cs)"

text \<open>The substring test \<^verbatim>\<open>sub in s\<close>.\<close>

fun py_in :: "string \<Rightarrow> string \<Rightarrow> bool" where
  "py_in sub [] = (sub = [])"
| "py_in sub (c # cs) = (prefix sub (c # cs) \<or> py_in sub cs)"

subsection \<open>\<^verbatim>\<open>url_generate\<close>\<close>

text \<open>
  The body of the innermost loop: the three chained \<^verbatim>\<open>replace\<close> calls, then the
  guarded replacement of \<^verbatim>\<open>{dataset-name}\<close>.
\<close>

definition url_of_pattern :: "string \<Rightarrow> string \<Rightarrow> string \<Rightarrow> string \<Rightarrow> string \<Rightarrow> string" where
  "url_of_pattern year_str month_str day_str key pattern =
     (let url = py_replace ''{DD}'' day_str
                  (py_replace ''{MM}'' month_str
                    (py_replace ''{YYYY}'' year_str pattern))
      in if py_in ''{dataset-name}'' url then py_replace ''{dataset-name}'' key url else url)"

text \<open>\<^verbatim>\<open>for pattern in url_base\<close>, appending to \<^verbatim>\<open>list_url\<close>.\<close>

fun loop_patterns ::
  "string \<Rightarrow> string \<Rightarrow> string \<Rightarrow> string \<Rightarrow> string list \<Rightarrow> string list \<Rightarrow> string list" where
  "loop_patterns year_str month_str day_str key [] list_url = list_url"
| "loop_patterns year_str month_str day_str key (pattern # rest) list_url =
     loop_patterns year_str month_str day_str key rest
       (list_url @ [url_of_pattern year_str month_str day_str key pattern])"

text \<open>
  \<^verbatim>\<open>for month in list_months\<close>. The month is parsed first and the day second, both
  inside the loop, so neither is looked at when there is no month to visit.
\<close>

fun loop_months ::
  "string \<Rightarrow> string \<Rightarrow> string \<Rightarrow> string list \<Rightarrow> string list \<Rightarrow> string list
     \<Rightarrow> py_error + string list" where
  "loop_months year_str day key url_base [] list_url = Inr list_url"
| "loop_months year_str day key url_base (month # rest) list_url =
     (case py_int month of
        None \<Rightarrow> Inl ValueError
      | Some m \<Rightarrow>
          (case py_int day of
             None \<Rightarrow> Inl ValueError
           | Some d \<Rightarrow>
               loop_months year_str day key url_base rest
                 (loop_patterns year_str (py_format_int 2 m) (py_format_int 2 d) key
                    url_base list_url)))"

text \<open>\<^verbatim>\<open>for year in range(year_start, year_end + 1)\<close>.\<close>

function loop_years ::
  "int \<Rightarrow> int \<Rightarrow> string list \<Rightarrow> string list \<Rightarrow> string \<Rightarrow> string \<Rightarrow> string list
     \<Rightarrow> py_error + string list" where
  "loop_years year year_end list_months url_base key day list_url =
     (if year < year_end + 1
      then (case loop_months (py_format_int 4 year) day key url_base list_months list_url of
              Inl e \<Rightarrow> Inl e
            | Inr list_url' \<Rightarrow>
                loop_years (year + 1) year_end list_months url_base key day list_url')
      else Inr list_url)"
  by pat_completeness auto
termination
  by (relation "measure (\<lambda>(year, year_end, _). nat (year_end + 1 - year))") auto

declare loop_years.simps [simp del]

definition url_generate ::
  "int \<Rightarrow> int \<Rightarrow> string list \<Rightarrow> string list \<Rightarrow> string \<Rightarrow> string \<Rightarrow> py_error + string list" where
  "url_generate year_start year_end list_months url_base key day =
     loop_years year_start year_end list_months url_base key day []"

text \<open>
  The loop of \<^verbatim>\<open>main\<close> over \<^verbatim>\<open>anac_other_dataset_names\<close>: one call of
  \<^verbatim>\<open>url_generate\<close> per dataset name (with the default day \<^verbatim>\<open>"01"\<close>), the results
  appended in order.
\<close>

fun urls_others ::
  "int \<Rightarrow> int \<Rightarrow> string list \<Rightarrow> string list \<Rightarrow> string list \<Rightarrow> string list
     \<Rightarrow> py_error + string list" where
  "urls_others year_start year_end list_months url_base [] acc = Inr acc"
| "urls_others year_start year_end list_months url_base (dataset_name # rest) acc =
     (case url_generate year_start year_end list_months url_base dataset_name ''01'' of
        Inl e \<Rightarrow> Inl e
      | Inr urls \<Rightarrow> urls_others year_start year_end list_months url_base rest (acc @ urls))"

text \<open>Auxiliary notions for stating the results about \<open>url_generate\<close>.\<close>

definition months_ok :: "string list \<Rightarrow> string \<Rightarrow> bool" where
  "months_ok list_months day =
     (list_all (\<lambda>m. py_int m \<noteq> None) list_months \<and> (list_months = [] \<or> py_int day \<noteq> None))"

definition urls_of_year ::
  "string \<Rightarrow> string \<Rightarrow> string \<Rightarrow> string list \<Rightarrow> string list \<Rightarrow> string list" where
  "urls_of_year year_str day key url_base list_months =
     concat (map (\<lambda>month. map (url_of_pattern year_str (py_format_int 2 (the (py_int month)))
                                     (py_format_int 2 (the (py_int day))) key) url_base)
                 list_months)"

text \<open>
  The specification's reading of one generated URL: each placeholder replaced, the
  dataset name unconditionally.
\<close>

definition expand_spec :: "int \<Rightarrow> int \<Rightarrow> int \<Rightarrow> string \<Rightarrow> string \<Rightarrow> string" where
  "expand_spec year month day key pattern =
     py_replace ''{dataset-name}'' key
       (py_replace ''{DD}'' (py_format_int 2 day)
         (py_replace ''{MM}'' (py_format_int 2 month)
           (py_replace ''{YYYY}'' (py_format_int 4 year) pattern)))"

subsection \<open>Regular expressions used by \<^verbatim>\<open>normalize_prefix\<close>\<close>

text \<open>
  The two patterns of the source, \<^verbatim>\<open>^\d{8}-\<close> and \<^verbatim>\<open>_\d{4}_\d{2}$\<close>, are sequences
  of single-character items with an optional anchor at either end. The model covers
  exactly this fragment: an item is \<^verbatim>\<open>\d\<close> or a literal character.
\<close>

datatype atom = Digit | Lit char

record regex =
  caret :: bool
  atoms :: "atom list"
  dollar :: bool

definition char_LF :: char where
  "char_LF = CHR 0x0A"

definition char_CR :: char where
  "char_CR = CHR 0x0D"

fun atom_matches :: "atom \<Rightarrow> char \<Rightarrow> bool" where
  "atom_matches Digit c = is_digit c"
| "atom_matches (Lit a) c = (a = c)"

text \<open>The items match a prefix of the text.\<close>

fun match_atoms :: "atom list \<Rightarrow> string \<Rightarrow> bool" where
  "match_atoms [] s = True"
| "match_atoms (a # as) [] = False"
| "match_atoms (a # as) (c # cs) = (atom_matches a c \<and> match_atoms as cs)"

text \<open>
  Without the \<^verbatim>\<open>MULTILINE\<close> flag, \<^verbatim>\<open>$\<close> matches at the end of the string and
  also just before a line feed that is the last character of the string.
\<close>

definition at_eos :: "string \<Rightarrow> bool" where
  "at_eos rest = (rest = [] \<or> rest = [char_LF])"

text \<open>
  A match starting at the current position; \<open>bos\<close> says whether that position is the
  beginning of the string, the only place where \<^verbatim>\<open>^\<close> matches.
\<close>

definition match_at :: "regex \<Rightarrow> bool \<Rightarrow> string \<Rightarrow> bool" where
  "match_at r bos s =
     ((bos \<or> \<not> caret r) \<and> match_atoms (atoms r) s
      \<and> (at_eos (drop (length (atoms r)) s) \<or> \<not> dollar r))"

text \<open>
  \<^verbatim>\<open>re.sub(r, '', s)\<close> for a pattern with at least one item: the text is scanned from
  the left; a match is deleted and the scan goes on behind it, otherwise one character is
  kept and the scan goes on behind that character.
\<close>

fun re_sub_empty :: "regex \<Rightarrow> bool \<Rightarrow> string \<Rightarrow> string" where
  "re_sub_empty r bos [] = []"
| "re_sub_empty r bos (c # cs) =
     (if atoms r \<noteq> [] \<and> match_at r bos (c # cs)
      then re_sub_empty r False (drop (length (atoms r)) (c # cs))
      else c # re_sub_empty r False cs)"

definition leading_date_re :: regex where
  "leading_date_re = \<lparr>caret = True, atoms = replicate 8 Digit @ [Lit CHR ''-''], dollar = False\<rparr>"

definition trailing_period_re :: regex where
  "trailing_period_re =
     \<lparr>caret = False, atoms = Lit CHR ''_'' # replicate 4 Digit @ Lit CHR ''_'' # replicate 2 Digit,
      dollar = True\<rparr>"

subsection \<open>\<^verbatim>\<open>normalize_prefix\<close>\<close>

definition normalize_prefix :: "string \<Rightarrow> string" where
  "normalize_prefix file_stem =
     (let normalized = re_sub_empty leading_date_re True file_stem;
          normalized = re_sub_empty trailing_period_re True normalized
      in normalized)"

text \<open>
  The words of the specification: a date stamp is exactly eight digits and a hyphen, a
  period stamp is an underscore, exactly four digits, an underscore and exactly two digits.
\<close>

definition is_date_stamp :: "string \<Rightarrow> bool" where
  "is_date_stamp s = (length s = 9 \<and> list_all is_digit (take 8 s) \<and> s ! 8 = CHR ''-'')"

definition is_period_stamp :: "string \<Rightarrow> bool" where
  "is_period_stamp s =
     (length s = 8 \<and> s ! 0 = CHR ''_'' \<and> list_all is_digit (take 4 (drop 1 s))
      \<and> s ! 5 = CHR ''_'' \<and> list_all is_digit (drop 6 s))"

definition has_leading_date :: "string \<Rightarrow> bool" where
  "has_leading_date s = is_date_stamp (take 9 s)"

definition has_trailing_period :: "string \<Rightarrow> bool" where
  "has_trailing_period s = is_period_stamp (drop (length s - 8) s)"

text \<open>A period stamp followed by nothing but one final line feed.\<close>

definition has_period_before_newline :: "string \<Rightarrow> bool" where
  "has_period_before_newline s =
     (s \<noteq> [] \<and> last s = char_LF \<and> has_trailing_period (butlast s))"

definition strip_date_spec :: "string \<Rightarrow> string" where
  "strip_date_spec s = (if has_leading_date s then drop 9 s else s)"

definition strip_period_spec :: "string \<Rightarrow> string" where
  "strip_period_spec s = (if has_trailing_period s then take (length s - 8) s else s)"

text \<open>The normalisation as the specification words it: both stamps, when present, removed.\<close>

definition normalize_spec :: "string \<Rightarrow> string" where
  "normalize_spec s = strip_period_spec (strip_date_spec s)"

text \<open>The second rewrite as the code performs it, with the case of the final line feed.\<close>

definition strip_period_nl :: "string \<Rightarrow> string" where
  "strip_period_nl s =
     (if has_trailing_period s then take (length s - 8) s
      else if has_period_before_newline s then take (length s - 9) s @ [char_LF]
      else s)"

subsection \<open>The file system\<close>

text \<open>
  A path is the list of its components below a fixed base directory (a \<^verbatim>\<open>Path\<close> object
  after parsing, without \<^verbatim>\<open>.\<close> and \<^verbatim>\<open>..\<close>); the empty path is the base directory
  itself, which always exists. The store maps paths to nodes. Component names are opaque
  strings; on a real file system they contain no slash, so joining a directory with a
  file name adds exactly one component.
\<close>

type_synonym path = "string list"

datatype node = Dir | File string

type_synonym filesystem = "(path \<times> node) list"

definition node_at :: "filesystem \<Rightarrow> path \<Rightarrow> node option" where
  "node_at fs p = (if p = [] then Some Dir else map_of fs p)"

text \<open>\<^verbatim>\<open>Path.is_dir()\<close>.\<close>

definition is_dir :: "filesystem \<Rightarrow> path \<Rightarrow> bool" where
  "is_dir fs p = (node_at fs p = Some Dir)"

definition is_file :: "filesystem \<Rightarrow> path \<Rightarrow> bool" where
  "is_file fs p = (case node_at fs p of Some (File c) \<Rightarrow> True | _ \<Rightarrow> False)"

text \<open>\<^verbatim>\<open>str(path)\<close>: the components joined by a slash.\<close>

definition path_str :: "path \<Rightarrow> string" where
  "path_str p = (case p of [] \<Rightarrow> ''.'' | c # cs \<Rightarrow> foldl (\<lambda>a b. a @ ''/'' @ b) c cs)"

text \<open>
  \<^verbatim>\<open>Path.mkdir(parents=True, exist_ok=True)\<close>: the components are visited from the
  base directory; a missing one is created, an existing directory is entered, and a
  regular file in the way raises \<^verbatim>\<open>NotADirectoryError\<close>, or \<^verbatim>\<open>FileExistsError\<close>
  when it is the last component. In a store where every entry lies inside a directory,
  nothing has been created by the time an exception is raised.
\<close>

fun mkdir_walk :: "filesystem \<Rightarrow> path \<Rightarrow> string list \<Rightarrow> py_error + filesystem" where
  "mkdir_walk fs upper [] = Inr fs"
| "mkdir_walk fs upper (c # cs) =
     (case node_at fs (upper @ [c]) of
        None \<Rightarrow> mkdir_walk (AList.update (upper @ [c]) Dir fs) (upper @ [c]) cs
      | Some Dir \<Rightarrow> mkdir_walk fs (upper @ [c]) cs
      | Some (File content) \<Rightarrow> Inl (if cs = [] then FileExistsError else NotADirectoryError))"

definition mkdir_parents :: "filesystem \<Rightarrow> path \<Rightarrow> py_error + filesystem" where
  "mkdir_parents fs p = mkdir_walk fs [] p"

text \<open>The entries directly inside a directory.\<close>

definition dir_entries :: "filesystem \<Rightarrow> path \<Rightarrow> path list" where
  "dir_entries fs d = remdups [p \<leftarrow> map fst fs. p \<noteq> [] \<and> butlast p = d]"

text \<open>
  \<^verbatim>\<open>fnmatch\<close> of a name against \<^verbatim>\<open>*.csv\<close> as \<^verbatim>\<open>pathlib\<close> applies it on POSIX:
  case-sensitive, and the star also matches a leading dot or nothing.
\<close>

definition fnmatch_csv :: "string \<Rightarrow> bool" where
  "fnmatch_csv name = suffix ''.csv'' name"

text \<open>
  \<^verbatim>\<open>source_path.glob('*.csv')\<close>: the matching entries of the directory itself, regular
  files and directories alike; nothing when the path is not a directory.
\<close>

definition glob_csv :: "filesystem \<Rightarrow> path \<Rightarrow> path list" where
  "glob_csv fs d = (if is_dir fs d then [p \<leftarrow> dir_entries fs d. fnmatch_csv (last p)] else [])"

text \<open>
  \<^verbatim>\<open>PurePath.suffix\<close> and \<^verbatim>\<open>PurePath.stem\<close> of a file name: the suffix starts at the
  last dot, unless that dot is the first or the last character of the name.
\<close>

definition py_suffix :: "string \<Rightarrow> string" where
  "py_suffix name =
     (let after = rev (takeWhile (\<lambda>c. c \<noteq> CHR ''.'') (rev name))
      in if CHR ''.'' \<in> set name \<and> after \<noteq> [] \<and> length after + 1 < length name
         then CHR ''.'' # after else [])"

definition py_stem :: "string \<Rightarrow> string" where
  "py_stem name = take (length name - length (py_suffix name)) name"

text \<open>
  Reading in text mode with the default \<^verbatim>\<open>newline=None\<close>: every \<^verbatim>\<open>\r\n\<close> and every
  remaining \<^verbatim>\<open>\r\<close> arrives as \<^verbatim>\<open>\n\<close>. Writing in text mode on POSIX leaves the text
  as it is.
\<close>

fun universal_newlines :: "string \<Rightarrow> string" where
  "universal_newlines [] = []"
| "universal_newlines [c] = [if c = char_CR then char_LF else c]"
| "universal_newlines (c # d # cs) =
     (if c = char_CR \<and> d = char_LF then char_LF # universal_newlines cs
      else if c = char_CR then char_LF # universal_newlines (d # cs)
      else c # universal_newlines (d # cs))"

text \<open>\<^verbatim>\<open>path.open(mode='r')\<close> followed by \<^verbatim>\<open>read()\<close>.\<close>

definition read_text :: "filesystem \<Rightarrow> path \<Rightarrow> py_error + string" where
  "read_text fs p =
     (case node_at fs p of
        None \<Rightarrow> Inl FileNotFoundError
      | Some Dir \<Rightarrow> Inl IsADirectoryError
      | Some (File content) \<Rightarrow> Inr (universal_newlines content))"

text \<open>
  \<^verbatim>\<open>path.open(mode='w')\<close>: the file is created or truncated at once. What is written
  afterwards is buffered and reaches the file when it is closed. (A real buffer is also
  emptied when it is full; this can only be observed by reading the output file while it
  is being written, after something has been written to it.)
\<close>

definition open_write :: "filesystem \<Rightarrow> path \<Rightarrow> py_error + filesystem" where
  "open_write fs p =
     (case node_at fs p of
        Some Dir \<Rightarrow> Inl IsADirectoryError
      | _ \<Rightarrow>
          (case node_at fs (butlast p) of
             None \<Rightarrow> Inl FileNotFoundError
           | Some (File content) \<Rightarrow> Inl NotADirectoryError
           | Some Dir \<Rightarrow> Inr (AList.update p (File []) fs)))"

text \<open>
  The lines met when iterating over a text file: each ends with its line feed, except
  possibly the last.
\<close>

fun text_lines :: "string \<Rightarrow> string list" where
  "text_lines [] = []"
| "text_lines (c # cs) =
     (if c = char_LF then [c] # text_lines cs
      else (case text_lines cs of [] \<Rightarrow> [[c]] | l # ls \<Rightarrow> (c # l) # ls))"

subsection \<open>\<^verbatim>\<open>merge_csv_files\<close>\<close>

text \<open>What the function prints, and the state it works on.\<close>

datatype event =
    WarnNoSourceDir path
  | WarnNoPrefixes
  | MergedFile string string
  | MergedPrefix string string nat nat

record world =
  files :: filesystem
  stdout :: "event list"

record merge_info =
  output_file :: string
  files_merged :: nat
  lines :: nat

type_synonym merge_result = "string \<rightharpoonup> merge_info"

text \<open>
  The inner loop \<^verbatim>\<open>for csv_file in matched_files\<close>, run while the output file is open:
  each file is read from the store and appended to what has been written so far. The
  result is the exception, if one was raised, the text written, and the output printed.
\<close>

fun write_matched ::
  "filesystem \<Rightarrow> string \<Rightarrow> path list \<Rightarrow> string \<Rightarrow> event list
     \<Rightarrow> py_error option \<times> string \<times> event list" where
  "write_matched fs prefix_name [] written out = (None, written, out)"
| "write_matched fs prefix_name (csv_file # rest) written out =
     (case read_text fs csv_file of
        Inl e \<Rightarrow> (Some e, written, out)
      | Inr content \<Rightarrow>
          write_matched fs prefix_name rest (written @ content)
            (out @ [MergedFile prefix_name (last csv_file)]))"

definition matched_files :: "path list \<Rightarrow> string \<Rightarrow> path list" where
  "matched_files all_csv_files prefix_name =
     [csv_file \<leftarrow> all_csv_files. normalize_prefix (py_stem (last csv_file)) = prefix_name]"

text \<open>The body of the loop \<^verbatim>\<open>for prefix_name in prefix_names\<close>.\<close>

definition merge_one ::
  "path \<Rightarrow> path list \<Rightarrow> string \<Rightarrow> world \<Rightarrow> merge_result
     \<Rightarrow> world \<times> (py_error + merge_result)" where
  "merge_one output_path all_csv_files prefix_name w merge_result =
     (let matched = matched_files all_csv_files prefix_name in
      if matched = [] then (w, Inr merge_result)
      else
        let output_name = prefix_name @ ''.csv'';
            current_output_path = output_path @ [output_name]
        in case open_write (files w) current_output_path of
             Inl e \<Rightarrow> (w, Inl e)
           | Inr fs_open \<Rightarrow>
               (case write_matched fs_open prefix_name matched [] (stdout w) of
                  (err, written, out) \<Rightarrow>
                    let fs_closed = AList.update current_output_path (File written) fs_open
                    in case err of
                         Some e \<Rightarrow> (\<lparr>files = fs_closed, stdout = out\<rparr>, Inl e)
                       | None \<Rightarrow>
                           (case read_text fs_closed current_output_path of
                              Inl e \<Rightarrow> (\<lparr>files = fs_closed, stdout = out\<rparr>, Inl e)
                            | Inr text \<Rightarrow>
                                let n = length (text_lines text);
                                    info = \<lparr>output_file = path_str current_output_path,
                                            files_merged = length matched,
                                            lines = n\<rparr>
                                in (\<lparr>files = fs_closed,
                                     stdout = out @ [MergedPrefix prefix_name output_name
                                                       (length matched) n]\<rparr>,
                                    Inr (merge_result(prefix_name \<mapsto> info))))))"

fun merge_loop ::
  "path \<Rightarrow> path list \<Rightarrow> string list \<Rightarrow> world \<Rightarrow> merge_result
     \<Rightarrow> world \<times> (py_error + merge_result)" where
  "merge_loop output_path all_csv_files [] w merge_result = (w, Inr merge_result)"
| "merge_loop output_path all_csv_files (prefix_name # rest) w merge_result =
     (case merge_one output_path all_csv_files prefix_name w merge_result of
        (w', Inl e) \<Rightarrow> (w', Inl e)
      | (w', Inr merge_result') \<Rightarrow> merge_loop output_path all_csv_files rest w' merge_result')"

definition merge_csv_files ::
  "world \<Rightarrow> path \<Rightarrow> path \<Rightarrow> string list \<Rightarrow> world \<times> (py_error + merge_result)" where
  "merge_csv_files w source_path output_path prefix_names =
     (case mkdir_parents (files w) output_path of
        Inl e \<Rightarrow> (w, Inl e)
      | Inr fs_made \<Rightarrow>
          if \<not> is_dir fs_made source_path
          then (\<lparr>files = fs_made, stdout = stdout w @ [WarnNoSourceDir source_path]\<rparr>,
                Inr Map.empty)
          else if prefix_names = []
          then (\<lparr>files = fs_made, stdout = stdout w @ [WarnNoPrefixes]\<rparr>, Inr Map.empty)
          else merge_loop output_path (sort (glob_csv fs_made source_path)) prefix_names
                 \<lparr>files = fs_made, stdout = stdout w\<rparr> Map.empty)"

text \<open>The content of a regular file, for stating the results.\<close>

definition content_of :: "filesystem \<Rightarrow> path \<Rightarrow> string" where
  "content_of fs p = (case node_at fs p of Some (File content) \<Rightarrow> content | _ \<Rightarrow> [])"

text \<open>The text obtained by reading the given files in order, one after the other.\<close>

definition merged_text :: "filesystem \<Rightarrow> path list \<Rightarrow> string" where
  "merged_text fs csv_files = concat (map (\<lambda>f. universal_newlines (content_of fs f)) csv_files)"

text \<open>The output file of a prefix, \<^verbatim>\<open>output_path / f"{prefix_name}.csv"\<close>.\<close>

definition target_of :: "path \<Rightarrow> string \<Rightarrow> path" where
  "target_of output_path prefix_name = output_path @ [prefix_name @ ''.csv'']"


section \<open>Auxiliary facts on \<open>url_generate\<close>\<close>

subsection \<open>Substring test and replacement\<close>

lemma py_in_Nil [simp]: "py_in [] s"
  by (cases s) simp_all

lemma py_in_iff: "py_in sub s \<longleftrightarrow> (\<exists>u v. s = u @ sub @ v)"
proof (induction s)
  case Nil
  then show ?case by auto
next
  case (Cons c cs)
  show ?case
  proof
    assume "py_in sub (c # cs)"
    then consider "prefix sub (c # cs)" | "py_in sub cs" by auto
    then show "\<exists>u v. c # cs = u @ sub @ v"
    proof cases
      case 1
      then obtain v where "c # cs = sub @ v" by (auto simp: prefix_def)
      then have "c # cs = [] @ sub @ v" by simp
      then show ?thesis by blast
    next
      case 2
      then obtain u v where "cs = u @ sub @ v" using Cons.IH by blast
      then have "c # cs = (c # u) @ sub @ v" by simp
      then show ?thesis by blast
    qed
  next
    assume "\<exists>u v. c # cs = u @ sub @ v"
    then obtain u v where uv: "c # cs = u @ sub @ v" by blast
    show "py_in sub (c # cs)"
    proof (cases u)
      case Nil
      then have "prefix sub (c # cs)" using uv by (auto simp: prefix_def)
      then show ?thesis by simp
    next
      case (Cons a u')
      then have "cs = u' @ sub @ v" using uv by simp
      then show ?thesis using Cons.IH by auto
    qed
  qed
qed

lemma py_in_appendI1: "py_in sub a \<Longrightarrow> py_in sub (a @ b)"
  unfolding py_in_iff by (metis append.assoc)

lemma py_in_appendI2: "py_in sub b \<Longrightarrow> py_in sub (a @ b)"
  unfolding py_in_iff by (metis append.assoc)

lemma prefix_stop:
  assumes "prefix sub (a @ d # v)" and "d \<notin> set sub"
  shows "prefix sub a"
proof -
  from assms(1) consider "prefix sub a" | b where "sub = a @ b" "prefix b (d # v)"
    by (auto simp: prefix_append)
  then show ?thesis
  proof cases
    case 1
    then show ?thesis .
  next
    case 2
    then show ?thesis using assms(2) by (cases b) auto
  qed
qed

lemma py_in_split_at:
  assumes "d \<notin> set sub"
  shows "py_in sub (u @ d # v) \<longleftrightarrow> py_in sub u \<or> py_in sub v"
proof (induction u)
  case Nil
  have "prefix sub (d # v) \<longleftrightarrow> sub = []"
    using assms by (cases sub) auto
  then show ?case by (cases "sub = []") auto
next
  case (Cons c u)
  have "prefix sub (c # u @ d # v) \<longleftrightarrow> prefix sub (c # u)"
  proof
    assume "prefix sub (c # u @ d # v)"
    then have "prefix sub ((c # u) @ d # v)" by simp
    then show "prefix sub (c # u)" using assms by (rule prefix_stop)
  next
    assume "prefix sub (c # u)"
    then have "prefix sub ((c # u) @ d # v)" by (rule prefix_prefix)
    then show "prefix sub (c # u @ d # v)" by simp
  qed
  then show ?case using Cons.IH by auto
qed

lemma py_in_split_block:
  assumes "set ds \<inter> set sub = {}" and "ds \<noteq> []"
  shows "py_in sub (u @ ds @ v) \<longleftrightarrow> py_in sub u \<or> py_in sub v"
  using assms
proof (induction ds arbitrary: u)
  case Nil
  then show ?case by simp
next
  case (Cons d ds)
  then have d: "d \<notin> set sub" and ds: "set ds \<inter> set sub = {}" by auto
  have step: "py_in sub (u @ d # (ds @ v)) \<longleftrightarrow> py_in sub u \<or> py_in sub (ds @ v)"
    using d by (rule py_in_split_at)
  show ?case
  proof (cases "ds = []")
    case True
    then show ?thesis using step by simp
  next
    case False
    have "py_in sub ([] @ ds @ v) \<longleftrightarrow> py_in sub [] \<or> py_in sub v"
      using ds False by (rule Cons.IH)
    then have "py_in sub (ds @ v) \<longleftrightarrow> sub = [] \<or> py_in sub v" by simp
    then show ?thesis using step by (cases "sub = []") auto
  qed
qed

lemma py_in_snoc_other:
  assumes "sub \<noteq> []" and "last sub \<noteq> c" and "py_in sub (u @ [c])"
  shows "py_in sub u"
  using assms(3)
proof (induction u)
  case Nil
  then have "prefix sub [c]" using assms(1) by simp
  then have "sub = [c]" using assms(1) by (cases sub) auto
  then show ?case using assms(2) by simp
next
  case (Cons a u)
  from Cons.prems consider "prefix sub ((a # u) @ [c])" | "py_in sub (u @ [c])" by auto
  then show ?case
  proof cases
    case 1
    then have "sub = (a # u) @ [c] \<or> prefix sub (a # u)" by (simp only: prefix_snoc)
    then show ?thesis using assms(2) by auto
  next
    case 2
    then show ?thesis using Cons.IH by simp
  qed
qed

text \<open>A replacement text that no occurrence of \<open>sub\<close> can touch.\<close>

lemma py_in_replace:
  assumes sep: "\<And>u v. py_in sub (u @ new @ v) \<Longrightarrow> py_in sub u \<or> py_in sub v"
    and old: "old \<noteq> []"
  shows "py_in sub (p @ py_replace old new s) \<Longrightarrow> py_in sub (p @ s)"
proof (induction s arbitrary: p rule: length_induct)
  case (1 s)
  show ?case
  proof (cases s)
    case Nil
    then show ?thesis using "1.prems" old by simp
  next
    case (Cons c cs)
    show ?thesis
    proof (cases "prefix old (c # cs)")
      case True
      then obtain r where r: "c # cs = old @ r" by (auto simp: prefix_def)
      then have dr: "drop (length old) (c # cs) = r" by (metis append_eq_conv_conj)
      have "length (c # cs) = length old + length r" using r by (metis length_append)
      then have lt: "length r < length s" using Cons old by simp
      from "1.prems" True old Cons dr have "py_in sub (p @ new @ py_replace old new r)"
        by simp
      then have "py_in sub p \<or> py_in sub (py_replace old new r)" by (rule sep)
      then show ?thesis
      proof
        assume "py_in sub p"
        then show ?thesis by (rule py_in_appendI1)
      next
        assume "py_in sub (py_replace old new r)"
        then have "py_in sub ([] @ py_replace old new r)" by simp
        then have "py_in sub ([] @ r)" using "1.IH" lt by blast
        then have "py_in sub r" by simp
        then have "py_in sub ((p @ old) @ r)" by (rule py_in_appendI2)
        then show ?thesis using r Cons by simp
      qed
    next
      case False
      from "1.prems" False old Cons have "py_in sub ((p @ [c]) @ py_replace old new cs)"
        by simp
      moreover have "length cs < length s" using Cons by simp
      ultimately have "py_in sub ((p @ [c]) @ cs)" using "1.IH" by blast
      then show ?thesis using Cons by simp
    qed
  qed
qed

lemma digit_char_is_digit: "d < 10 \<Longrightarrow> is_digit (digit_char d)"
proof -
  assume "d < 10"
  then have "d \<in> {0, 1, 2, 3, 4, 5, 6, 7, 8, 9}" by auto
  then show ?thesis by (auto simp: digit_char_def is_digit_def)
qed

lemma dec_digits_digits: "list_all is_digit (dec_digits n)"
proof (induction n rule: dec_digits.induct)
  case (1 n)
  show ?case
  proof (cases "n < 10")
    case True
    then show ?thesis by (subst dec_digits.simps) (simp add: digit_char_is_digit)
  next
    case False
    then show ?thesis using "1.IH" by (subst dec_digits.simps) (simp add: digit_char_is_digit)
  qed
qed

lemma dec_digits_nonempty: "dec_digits n \<noteq> []"
  by (subst dec_digits.simps) simp

lemma is_digit_zero: "is_digit CHR ''0''"
  by (simp add: is_digit_def)

lemma replicate_zero_digits: "list_all is_digit (replicate k CHR ''0'')"
  by (induction k) (simp_all add: is_digit_zero)

lemma zfill_digits: "list_all is_digit s \<Longrightarrow> list_all is_digit (zfill w s)"
  by (simp add: zfill_def replicate_zero_digits)

lemma zfill_nonempty: "s \<noteq> [] \<Longrightarrow> zfill w s \<noteq> []"
  by (simp add: zfill_def)

lemma py_format_int_shape:
  "\<exists>sgn ds. py_format_int w n = sgn @ ds \<and> (sgn = [] \<or> sgn = ''-'') \<and> ds \<noteq> [] \<and> list_all is_digit ds"
proof (cases "n < 0")
  case True
  then have "py_format_int w n = ''-'' @ zfill (w - 1) (dec_digits (nat (- n)))"
    by (simp add: py_format_int_def)
  then show ?thesis
    using zfill_digits[OF dec_digits_digits] zfill_nonempty[OF dec_digits_nonempty] by blast
next
  case False
  then have "py_format_int w n = [] @ zfill w (dec_digits (nat n))"
    by (simp add: py_format_int_def)
  then show ?thesis
    using zfill_digits[OF dec_digits_digits] zfill_nonempty[OF dec_digits_nonempty] by blast
qed

lemma py_format_int_separates:
  assumes nd: "\<And>c. c \<in> set sub \<Longrightarrow> \<not> is_digit c" and ne0: "sub \<noteq> []"
    and lst: "last sub \<noteq> CHR ''-''"
    and a: "py_in sub (u @ py_format_int w n @ v)"
  shows "py_in sub u \<or> py_in sub v"
proof -
  obtain sgn ds where f: "py_format_int w n = sgn @ ds" and sgn: "sgn = [] \<or> sgn = ''-''"
    and ne: "ds \<noteq> []" and dig: "list_all is_digit ds"
    using py_format_int_shape by blast
  have disj: "set ds \<inter> set sub = {}"
    using dig nd unfolding list_all_iff by blast
  from a have "py_in sub (u @ (sgn @ ds) @ v)" by (simp only: f)
  then have "py_in sub ((u @ sgn) @ ds @ v)" by (simp only: append_assoc)
  then have "py_in sub (u @ sgn) \<or> py_in sub v"
    by (simp only: py_in_split_block[OF disj ne])
  moreover have "py_in sub u" if b: "py_in sub (u @ sgn)"
  proof -
    from sgn show ?thesis
    proof
      assume "sgn = []"
      then show ?thesis using b by simp
    next
      assume "sgn = ''-''"
      then have "py_in sub (u @ [CHR ''-''])" using b by simp
      with ne0 lst show ?thesis by (rule py_in_snoc_other)
    qed
  qed
  ultimately show ?thesis by blast
qed

lemma py_in_replace_format:
  assumes nd: "\<And>c. c \<in> set sub \<Longrightarrow> \<not> is_digit c" and ne0: "sub \<noteq> []"
    and lst: "last sub \<noteq> CHR ''-''"
    and old: "old \<noteq> []" and a: "py_in sub (py_replace old (py_format_int w n) s)"
  shows "py_in sub s"
proof -
  have sep: "\<And>u v. py_in sub (u @ py_format_int w n @ v) \<Longrightarrow> py_in sub u \<or> py_in sub v"
    using nd ne0 lst by (rule py_format_int_separates)
  from a have "py_in sub ([] @ py_replace old (py_format_int w n) s)" by simp
  with sep old have "py_in sub ([] @ s)" by (rule py_in_replace)
  then show ?thesis by simp
qed

lemma dataset_name_facts:
  "\<And>c. c \<in> set ''{dataset-name}'' \<Longrightarrow> \<not> is_digit c"
  "''{dataset-name}'' \<noteq> []"
  "last ''{dataset-name}'' \<noteq> CHR ''-''"
  by (auto simp: is_digit_def)

lemma url_of_pattern_no_key:
  assumes "\<not> py_in ''{dataset-name}'' pattern"
  shows "url_of_pattern (py_format_int 4 y) (py_format_int 2 m) (py_format_int 2 d) key pattern
         = py_replace ''{DD}'' (py_format_int 2 d)
             (py_replace ''{MM}'' (py_format_int 2 m)
               (py_replace ''{YYYY}'' (py_format_int 4 y) pattern))"
proof -
  note r = py_in_replace_format[of "''{dataset-name}''", OF dataset_name_facts]
  have 1: "\<not> py_in ''{dataset-name}'' (py_replace ''{YYYY}'' (py_format_int 4 y) pattern)"
    using assms r[of "''{YYYY}''"] by blast
  have 2: "\<not> py_in ''{dataset-name}'' (py_replace ''{MM}'' (py_format_int 2 m)
               (py_replace ''{YYYY}'' (py_format_int 4 y) pattern))"
    using 1 r[of "''{MM}''"] by blast
  have 3: "\<not> py_in ''{dataset-name}'' (py_replace ''{DD}'' (py_format_int 2 d) (py_replace ''{MM}'' (py_format_int 2 m)
               (py_replace ''{YYYY}'' (py_format_int 4 y) pattern)))"
    using 2 r[of "''{DD}''"] by blast
  then show ?thesis unfolding url_of_pattern_def Let_def by (simp only: if_False)
qed

subsection \<open>The loops of \<open>url_generate\<close> in closed form\<close>

lemma loop_patterns_eq:
  "loop_patterns ys ms ds key ps acc = acc @ map (url_of_pattern ys ms ds key) ps"
  by (induction ps arbitrary: acc) simp_all

lemma loop_months_eq:
  "loop_months ys day key ps ms acc =
     (if months_ok ms day then Inr (acc @ urls_of_year ys day key ps ms) else Inl ValueError)"
proof (induction ms arbitrary: acc)
  case Nil
  then show ?case by (simp add: months_ok_def urls_of_year_def)
next
  case (Cons m ms)
  show ?case
  proof (cases "py_int m")
    case None
    then show ?thesis by (simp add: months_ok_def)
  next
    case (Some mi)
    note m = this
    show ?thesis
    proof (cases "py_int day")
      case None
      then show ?thesis using m by (simp add: months_ok_def)
    next
      case (Some di)
      have ok: "months_ok (m # ms) day = months_ok ms day"
        using m Some by (auto simp: months_ok_def)
      show ?thesis
        using m Some Cons.IH ok
        by (simp add: loop_patterns_eq urls_of_year_def)
    qed
  qed
qed

lemma length_urls_of_year:
  "length (urls_of_year ys day key ps ms) = length ms * length ps"
  by (induction ms) (simp_all add: urls_of_year_def)

lemma loop_years_eq:
  "loop_years y ye ms ps key day acc =
     (if y \<le> ye \<and> \<not> months_ok ms day then Inl ValueError
      else Inr (acc @ concat (map (\<lambda>yr. urls_of_year (py_format_int 4 yr) day key ps ms) [y..ye])))"
proof (induction y ye ms ps key day acc rule: loop_years.induct)
  case (1 year year_end list_months url_base key day list_url)
  show ?case
  proof (cases "year < year_end + 1")
    case False
    then show ?thesis by (subst loop_years.simps) simp
  next
    case True
    then have le: "year \<le> year_end" by simp
    show ?thesis
    proof (cases "months_ok list_months day")
      case False
      then show ?thesis using True by (subst loop_years.simps) (simp add: loop_months_eq)
    next
      case ok: True
      have up: "[year..year_end] = year # [year + 1..year_end]"
        using le by (rule upto_rec1)
      show ?thesis
        using True ok
          "1.IH"[OF True, of "list_url @ urls_of_year (py_format_int 4 year) day key url_base list_months"]
        by (subst loop_years.simps) (simp add: loop_months_eq up)
    qed
  qed
qed

lemma length_concat_const:
  "(\<And>x. x \<in> set xs \<Longrightarrow> length (f x) = k) \<Longrightarrow> length (concat (map f xs)) = length xs * k"
  by (induction xs) simp_all

lemma py_int_01: "py_int ''01'' = Some 1"
  by code_simp

lemma py_int_02: "py_int ''02'' = Some 2"
  by code_simp

subsection \<open>Zero padding\<close>

lemma digit_val_digit_char: "d < 10 \<Longrightarrow> digit_val (digit_char d) = d"
proof -
  assume "d < 10"
  then have "d \<in> {0, 1, 2, 3, 4, 5, 6, 7, 8, 9}" by auto
  then show ?thesis by (auto simp: digit_char_def digit_val_def)
qed

lemma dec_value_snoc: "dec_value (xs @ [c]) = 10 * dec_value xs + digit_val c"
  by (simp add: dec_value_def)

lemma dec_value_dec_digits: "dec_value (dec_digits n) = n"
proof (induction n rule: dec_digits.induct)
  case (1 n)
  show ?case
  proof (cases "n < 10")
    case True
    then show ?thesis
      by (subst dec_digits.simps) (simp add: dec_value_def digit_val_digit_char)
  next
    case False
    then have "dec_value (dec_digits n) = 10 * dec_value (dec_digits (n div 10)) + digit_val (digit_char (n mod 10))"
      by (subst dec_digits.simps) (simp add: dec_value_snoc)
    then show ?thesis using "1.IH" False by (simp add: digit_val_digit_char)
  qed
qed

lemma length_dec_digits: "0 < w \<Longrightarrow> n < 10 ^ w \<Longrightarrow> length (dec_digits n) \<le> w"
proof (induction n arbitrary: w rule: dec_digits.induct)
  case (1 n)
  show ?case
  proof (cases "n < 10")
    case True
    then show ?thesis using "1.prems" by (subst dec_digits.simps) simp
  next
    case False
    obtain w' where w: "w = Suc w'" using "1.prems"(1) by (cases w) auto
    have "w' \<noteq> 0" using False "1.prems"(2) w by (cases w') auto
    then have pos: "0 < w'" by simp
    have "n div 10 < 10 ^ w'" using "1.prems"(2) w by (simp add: less_mult_imp_div_less mult.commute)
    then have "length (dec_digits (n div 10)) \<le> w'" using "1.IH" False pos by simp
    then show ?thesis using False w by (subst dec_digits.simps) simp
  qed
qed

lemma dec_value_zeros: "dec_value (replicate k CHR ''0'' @ s) = dec_value s"
proof -
  have z: "foldl (\<lambda>a c. 10 * a + digit_val c) 0 (replicate k CHR ''0'') = 0"
    by (induction k) (simp_all add: digit_val_def)
  show ?thesis by (simp add: dec_value_def z)
qed

lemma py_format_int_padded:
  assumes "0 < w" and "0 \<le> n" and "n < 10 ^ w"
  shows "length (py_format_int w n) = w \<and> list_all is_digit (py_format_int w n)
         \<and> int (dec_value (py_format_int w n)) = n"
proof -
  have f: "py_format_int w n = zfill w (dec_digits (nat n))"
    using assms(2) by (simp add: py_format_int_def)
  have "nat n < 10 ^ w" using assms(2,3) by (simp add: nat_less_iff)
  then have "length (dec_digits (nat n)) \<le> w" using assms(1) by (simp add: length_dec_digits)
  then have "length (zfill w (dec_digits (nat n))) = w" by (simp add: zfill_def)
  moreover have "list_all is_digit (zfill w (dec_digits (nat n)))"
    by (rule zfill_digits[OF dec_digits_digits])
  moreover have "dec_value (zfill w (dec_digits (nat n))) = nat n"
    by (simp add: zfill_def dec_value_zeros dec_value_dec_digits)
  ultimately show ?thesis using f assms(2) by simp
qed

subsection \<open>The guard before the last replacement\<close>

lemma py_replace_absent: "old \<noteq> [] \<Longrightarrow> \<not> py_in old s \<Longrightarrow> py_replace old new s = s"
  by (induction s) auto

lemma url_of_pattern_expand_spec:
  "url_of_pattern (py_format_int 4 y) (py_format_int 2 m) (py_format_int 2 d) key pattern
     = expand_spec y m d key pattern"
proof -
  have "py_replace ''{dataset-name}'' key u = u" if "\<not> py_in ''{dataset-name}'' u" for u
    using that by (intro py_replace_absent) simp_all
  then show ?thesis
    unfolding url_of_pattern_def expand_spec_def Let_def by presburger
qed

lemma urls_of_year_expand_spec:
  "urls_of_year (py_format_int 4 y) day key ps ms
     = concat (map (\<lambda>m. map (\<lambda>p. expand_spec y (the (py_int m)) (the (py_int day)) key p) ps) ms)"
  unfolding urls_of_year_def url_of_pattern_expand_spec ..

lemma urls_of_year_no_key:
  assumes "list_all (\<lambda>p. \<not> py_in ''{dataset-name}'' p) ps"
  shows "urls_of_year (py_format_int 4 y) day k1 ps ms = urls_of_year (py_format_int 4 y) day k2 ps ms"
proof -
  have "url_of_pattern (py_format_int 4 y) (py_format_int 2 m) (py_format_int 2 d) k1 p
        = url_of_pattern (py_format_int 4 y) (py_format_int 2 m) (py_format_int 2 d) k2 p"
    if "p \<in> set ps" for p m d
  proof -
    from that assms have np: "\<not> py_in ''{dataset-name}'' p" by (simp add: list_all_iff)
    show ?thesis
      by (rule trans[OF url_of_pattern_no_key[OF np] url_of_pattern_no_key[OF np, symmetric]])
  qed
  then have meq: "map (url_of_pattern (py_format_int 4 y) (py_format_int 2 m) (py_format_int 2 d) k1) ps
        = map (url_of_pattern (py_format_int 4 y) (py_format_int 2 m) (py_format_int 2 d) k2) ps" for m d
    by (intro map_cong refl)
  show ?thesis unfolding urls_of_year_def meq ..
qed

lemma urls_others_const:
  assumes "\<And>k. url_generate ys ye ms ps k ''01'' = Inr urls"
  shows "urls_others ys ye ms ps names acc = Inr (acc @ concat (replicate (length names) urls))"
  by (induction names arbitrary: acc) (simp_all add: assms)

section \<open>Results on \<open>url_generate\<close>\<close>

text \<open>
  C1. When \<open>year_start \<le> year_end\<close>, the list returned by \<open>url_generate\<close> has length
  \<open>(year_end - year_start + 1) * |months| * |patterns|\<close>; when \<open>year_start > year_end\<close>
  the result is the empty list and nothing is raised. A list is returned whenever every
  month and the day are integer literals.
\<close>

theorem url_generate_length:
  "(year_end < year_start \<longrightarrow> url_generate year_start year_end list_months url_base key day = Inr [])
   \<and> (year_start \<le> year_end \<longrightarrow>
        (\<forall>urls. url_generate year_start year_end list_months url_base key day = Inr urls \<longrightarrow>
           int (length urls)
             = (year_end - year_start + 1) * int (length list_months) * int (length url_base)))
   \<and> (year_start \<le> year_end \<and> list_all (\<lambda>m. py_int m \<noteq> None) list_months \<and> py_int day \<noteq> None \<longrightarrow>
        (\<exists>urls. url_generate year_start year_end list_months url_base key day = Inr urls))"
proof (intro conjI impI allI)
  assume "year_end < year_start"
  then show "url_generate year_start year_end list_months url_base key day = Inr []"
    by (simp add: url_generate_def loop_years_eq)
next
  fix urls
  assume le: "year_start \<le> year_end"
    and r: "url_generate year_start year_end list_months url_base key day = Inr urls"
  from r have "urls = concat (map (\<lambda>yr. urls_of_year (py_format_int 4 yr) day key url_base list_months)
                                  [year_start..year_end])"
    by (simp add: url_generate_def loop_years_eq split: if_splits)
  then have "length urls = length [year_start..year_end] * (length list_months * length url_base)"
    by (simp add: length_concat_const length_urls_of_year)
  then show "int (length urls)
      = (year_end - year_start + 1) * int (length list_months) * int (length url_base)"
    using le by simp
next
  assume "year_start \<le> year_end \<and> list_all (\<lambda>m. py_int m \<noteq> None) list_months \<and> py_int day \<noteq> None"
  then show "\<exists>urls. url_generate year_start year_end list_months url_base key day = Inr urls"
    by (simp add: url_generate_def loop_years_eq months_ok_def)
qed

theorem url_generate_length_witness:
  "url_generate 2021 2020 [''xx''] [''a''] ''cig'' ''zz'' = Inr []
   \<and> (\<exists>urls. url_generate 2021 2022 [''01'', ''02''] [''a{MM}'', ''b'', ''c''] ''cig'' ''01'' = Inr urls
         \<and> length urls = 12)"
proof -
  note t = url_generate_length [where year_start = 2021 and year_end = 2020
      and list_months = "[''xx'']" and url_base = "[''a'']" and key = "''cig''" and day = "''zz''"]
  note u = url_generate_length [where year_start = 2021 and year_end = 2022
      and list_months = "[''01'', ''02'']" and url_base = "[''a{MM}'', ''b'', ''c'']"
      and key = "''cig''" and day = "''01''"]
  from t have a: "url_generate 2021 2020 [''xx''] [''a''] ''cig'' ''zz'' = Inr []" by simp
  from u obtain urls
    where b: "url_generate 2021 2022 [''01'', ''02''] [''a{MM}'', ''b'', ''c''] ''cig'' ''01'' = Inr urls"
    by (auto simp: py_int_01 py_int_02)
  with u have "int (length urls) = 12" by simp
  then have "length urls = 12" by simp
  with a b show ?thesis by blast
qed

text \<open>
  C2. The example of the specification, and the general enumeration: years ascending,
  then months in list order, then patterns in list order, each URL obtained by replacing
  \<^verbatim>\<open>{YYYY}\<close>, \<^verbatim>\<open>{MM}\<close>, \<^verbatim>\<open>{DD}\<close> and \<^verbatim>\<open>{dataset-name}\<close>. A year between 0 and 9999
  is written with exactly four digits, a month or day between 0 and 99 with exactly two.
\<close>

theorem url_generate_order:
  "url_generate 2021 2021 [''01'', ''02''] [''https://x/{dataset-name}/{YYYY}/{MM}.zip''] ''cig'' ''01''
     = Inr [''https://x/cig/2021/01.zip'', ''https://x/cig/2021/02.zip'']
   \<and> (months_ok list_months day \<longrightarrow>
        url_generate year_start year_end list_months url_base key day
          = Inr [expand_spec y (the (py_int m)) (the (py_int day)) key p.
                   y \<leftarrow> [year_start..year_end], m \<leftarrow> list_months, p \<leftarrow> url_base])
   \<and> (0 \<le> n \<and> n \<le> 9999 \<longrightarrow>
        length (py_format_int 4 n) = 4 \<and> list_all is_digit (py_format_int 4 n)
        \<and> int (dec_value (py_format_int 4 n)) = n)
   \<and> (0 \<le> k \<and> k \<le> 99 \<longrightarrow>
        length (py_format_int 2 k) = 2 \<and> list_all is_digit (py_format_int 2 k)
        \<and> int (dec_value (py_format_int 2 k)) = k)"
proof (intro conjI impI)
  show "url_generate 2021 2021 [''01'', ''02''] [''https://x/{dataset-name}/{YYYY}/{MM}.zip''] ''cig'' ''01''
     = Inr [''https://x/cig/2021/01.zip'', ''https://x/cig/2021/02.zip'']"
    by code_simp
next
  assume "months_ok list_months day"
  then show "url_generate year_start year_end list_months url_base key day
          = Inr [expand_spec y (the (py_int m)) (the (py_int day)) key p.
                   y \<leftarrow> [year_start..year_end], m \<leftarrow> list_months, p \<leftarrow> url_base]"
    by (simp add: url_generate_def loop_years_eq urls_of_year_expand_spec)
next
  assume "0 \<le> n \<and> n \<le> 9999"
  then show "length (py_format_int 4 n) = 4" "list_all is_digit (py_format_int 4 n)"
    "int (dec_value (py_format_int 4 n)) = n"
    using py_format_int_padded[of 4 n] by simp_all
next
  assume "0 \<le> k \<and> k \<le> 99"
  then show "length (py_format_int 2 k) = 2" "list_all is_digit (py_format_int 2 k)"
    "int (dec_value (py_format_int 2 k)) = k"
    using py_format_int_padded[of 2 k] by simp_all
qed

theorem url_generate_order_witness:
  "months_ok [''3'', ''11''] ''7''
   \<and> url_generate 1999 2000 [''3'', ''11''] [''{YYYY}-{MM}-{DD}/{dataset-name}'', ''{MM}''] ''k'' ''7''
       = Inr [''1999-03-07/k'', ''03'', ''1999-11-07/k'', ''11'',
              ''2000-03-07/k'', ''03'', ''2000-11-07/k'', ''11'']
   \<and> py_format_int 4 33 = ''0033'' \<and> py_format_int 2 5 = ''05''"
proof -
  have ok: "months_ok [''3'', ''11''] ''7''" by code_simp
  have up: "[1999..2000] = [1999, 2000::int]" by code_simp
  have e: "[expand_spec y (the (py_int m)) (the (py_int ''7'')) ''k'' p.
              y \<leftarrow> [1999, 2000], m \<leftarrow> [''3'', ''11''],
              p \<leftarrow> [''{YYYY}-{MM}-{DD}/{dataset-name}'', ''{MM}'']]
           = [''1999-03-07/k'', ''03'', ''1999-11-07/k'', ''11'',
              ''2000-03-07/k'', ''03'', ''2000-11-07/k'', ''11'']"
    by code_simp
  note t = url_generate_order [where list_months = "[''3'', ''11'']" and day = "''7''"
      and year_start = 1999 and year_end = 2000 and key = "''k''"
      and url_base = "[''{YYYY}-{MM}-{DD}/{dataset-name}'', ''{MM}'']" and n = 33 and k = 5]
  have a: "url_generate 1999 2000 [''3'', ''11''] [''{YYYY}-{MM}-{DD}/{dataset-name}'', ''{MM}''] ''k'' ''7''
       = Inr [''1999-03-07/k'', ''03'', ''1999-11-07/k'', ''11'',
              ''2000-03-07/k'', ''03'', ''2000-11-07/k'', ''11'']"
    using t ok by (simp only: up e)
  have b: "py_format_int 4 33 = ''0033''" "py_format_int 2 5 = ''05''" by code_simp+
  from ok a b show ?thesis by blast
qed

text \<open>
  C9. When no pattern contains \<^verbatim>\<open>{dataset-name}\<close>, the result of \<open>url_generate\<close> is
  the same for any two keys; the loop of \<^verbatim>\<open>main\<close> over the dataset names still calls
  it once per name, so that its output is that one list repeated once per name.
\<close>

theorem url_generate_key_independent:
  assumes "list_all (\<lambda>p. \<not> py_in ''{dataset-name}'' p) url_base"
  shows "url_generate year_start year_end list_months url_base k1 day
           = url_generate year_start year_end list_months url_base k2 day
         \<and> (\<forall>urls. url_generate year_start year_end list_months url_base k1 ''01'' = Inr urls \<longrightarrow>
               urls_others year_start year_end list_months url_base names []
                 = Inr (concat (replicate (length names) urls)))"
proof -
  have eq: "url_generate year_start year_end list_months url_base ka d
           = url_generate year_start year_end list_months url_base kb d" for ka kb d
    unfolding url_generate_def loop_years_eq
    by (simp only: urls_of_year_no_key[OF assms, of _ _ ka _ kb])
  have "urls_others year_start year_end list_months url_base names []
          = Inr (concat (replicate (length names) urls))"
    if "url_generate year_start year_end list_months url_base k1 ''01'' = Inr urls" for urls
  proof -
    have "url_generate year_start year_end list_months url_base k ''01'' = Inr urls" for k
      using that eq[of k "''01''" k1] by simp
    then show ?thesis using urls_others_const[of year_start year_end list_months url_base urls names "[]"]
      by simp
  qed
  with eq show ?thesis by blast
qed

theorem url_generate_key_independent_witness:
  "list_all (\<lambda>p. \<not> py_in ''{dataset-name}'' p) [''u/{YYYY}{MM}'']
   \<and> url_generate 2020 2020 [''1'', ''2''] [''u/{YYYY}{MM}''] ''cig'' ''01''
       = url_generate 2020 2020 [''1'', ''2''] [''u/{YYYY}{MM}''] ''smartcig'' ''01''
   \<and> urls_others 2020 2020 [''1'', ''2''] [''u/{YYYY}{MM}''] [''a'', ''b''] []
       = Inr [''u/202001'', ''u/202002'', ''u/202001'', ''u/202002'']"
proof -
  have h: "list_all (\<lambda>p. \<not> py_in ''{dataset-name}'' p) [''u/{YYYY}{MM}'']" by code_simp
  have g: "url_generate 2020 2020 [''1'', ''2''] [''u/{YYYY}{MM}''] ''cig'' ''01''
            = Inr [''u/202001'', ''u/202002'']" by code_simp
  note t = url_generate_key_independent [OF h, where year_start = 2020 and year_end = 2020
      and list_months = "[''1'', ''2'']" and ?k1.0 = "''cig''" and ?k2.0 = "''smartcig''"
      and day = "''01''" and names = "[''a'', ''b'']"]
  from t g have "urls_others 2020 2020 [''1'', ''2''] [''u/{YYYY}{MM}''] [''a'', ''b''] []
       = Inr (concat (replicate (length [''a'', ''b'']) [''u/202001'', ''u/202002'']))"
    by blast
  moreover have "concat (replicate (length [''a'', ''b'']) [''u/202001'', ''u/202002''])
       = [''u/202001'', ''u/202002'', ''u/202001'', ''u/202002'']"
    by code_simp
  ultimately show ?thesis using t h by simp
qed

section \<open>Auxiliary facts on \<open>normalize_prefix\<close>\<close>

subsection \<open>The two rewrites in closed form\<close>

lemma match_atoms_Digits:
  "match_atoms (replicate n Digit @ as) s
     \<longleftrightarrow> n \<le> length s \<and> list_all is_digit (take n s) \<and> match_atoms as (drop n s)"
proof (induction n arbitrary: s)
  case 0
  then show ?case by simp
next
  case (Suc n)
  then show ?case by (cases s) auto
qed

lemma match_atoms_length: "match_atoms as s \<Longrightarrow> length as \<le> length s"
  by (induction as s rule: match_atoms.induct) simp_all

lemma match_atoms_Lit:
  "match_atoms (Lit a # as) s \<longleftrightarrow> s \<noteq> [] \<and> hd s = a \<and> match_atoms as (tl s)"
  by (cases s) auto

lemma match_atoms_date:
  "match_atoms (atoms leading_date_re) s \<longleftrightarrow> has_leading_date s"
proof (cases "9 \<le> length s")
  case True
  then have "drop 8 s \<noteq> []" "hd (drop 8 s) = s ! 8" "take 9 s ! 8 = s ! 8"
    by (simp_all add: hd_drop_conv_nth)
  then show ?thesis
    using True
    by (simp add: leading_date_re_def match_atoms_Digits match_atoms_Lit has_leading_date_def
        is_date_stamp_def min_def)
next
  case False
  then have "drop 8 s = []" by simp
  then show ?thesis
    using False
    by (simp add: leading_date_re_def match_atoms_Digits match_atoms_Lit has_leading_date_def
        is_date_stamp_def)
qed

lemma match_atoms_period:
  "match_atoms (atoms trailing_period_re) s \<longleftrightarrow> is_period_stamp (take 8 s)"
proof (cases "8 \<le> length s")
  case True
  then obtain c cs where s: "s = c # cs" by (cases s) auto
  have l: "7 \<le> length cs" using True s by simp
  have a: "drop 4 cs \<noteq> []" "hd (drop 4 cs) = cs ! 4" using l by (simp_all add: hd_drop_conv_nth)
  have "drop (Suc 4) cs = drop 4 (tl cs)" by (rule drop_Suc)
  then have b: "tl (drop 4 cs) = drop 5 cs" by (simp add: tl_drop)
  have c: "take 4 (take 7 cs) = take 4 cs" "drop 5 (take 7 cs) = take 2 (drop 5 cs)"
    by (simp_all add: drop_take)
  show ?thesis
    using l a
    by (auto simp: trailing_period_re_def match_atoms_Digits[where as = "[]", simplified]
        match_atoms_Digits match_atoms_Lit s is_period_stamp_def b c min_def)
next
  case False
  have "length (atoms trailing_period_re) = 8" by (simp add: trailing_period_re_def)
  then have "\<not> match_atoms (atoms trailing_period_re) s"
    using False match_atoms_length[of "atoms trailing_period_re" s] by auto
  moreover have "\<not> is_period_stamp (take 8 s)" using False by (simp add: is_period_stamp_def)
  ultimately show ?thesis by simp
qed

lemma match_at_date: "match_at leading_date_re bos s \<longleftrightarrow> bos \<and> has_leading_date s"
  by (simp add: match_at_def match_atoms_date) (simp add: leading_date_re_def)

lemma match_at_period:
  "match_at trailing_period_re bos s \<longleftrightarrow> is_period_stamp (take 8 s) \<and> at_eos (drop 8 s)"
  by (simp add: match_at_def match_atoms_period) (simp add: trailing_period_re_def)

lemma re_sub_empty_caret_later: "caret r \<Longrightarrow> re_sub_empty r False s = s"
  by (induction s) (simp_all add: match_at_def)

lemma atoms_date_length: "length (atoms leading_date_re) = 9" "atoms leading_date_re \<noteq> []"
  by (simp_all add: leading_date_re_def)

lemma atoms_period_length: "length (atoms trailing_period_re) = 8" "atoms trailing_period_re \<noteq> []"
  by (simp_all add: trailing_period_re_def)

lemma strip_leading_eq: "re_sub_empty leading_date_re True s = strip_date_spec s"
proof (cases s)
  case Nil
  then show ?thesis by (simp add: strip_date_spec_def has_leading_date_def is_date_stamp_def)
next
  case (Cons c cs)
  have car: "caret leading_date_re" by (simp add: leading_date_re_def)
  show ?thesis
    by (simp add: Cons match_at_date atoms_date_length re_sub_empty_caret_later[OF car]
        strip_date_spec_def)
qed

lemma has_trailing_period_length: "has_trailing_period s \<Longrightarrow> 8 \<le> length s"
  by (auto simp: has_trailing_period_def is_period_stamp_def)

lemma has_trailing_period_Cons:
  "has_trailing_period (c # cs)
     \<longleftrightarrow> has_trailing_period cs \<or> (length cs = 7 \<and> is_period_stamp (c # cs))"
proof -
  consider "length cs < 7" | "length cs = 7" | "8 \<le> length cs" by linarith
  then show ?thesis
  proof cases
    case 1
    then show ?thesis by (simp add: has_trailing_period_def is_period_stamp_def)
  next
    case 2
    then show ?thesis by (simp add: has_trailing_period_def) (simp add: is_period_stamp_def)
  next
    case 3
    then have "length (c # cs) - 8 = Suc (length cs - 8)" by simp
    then have "drop (length (c # cs) - 8) (c # cs) = drop (length cs - 8) cs"
      by (simp only: drop_Suc_Cons)
    then show ?thesis using 3 by (simp add: has_trailing_period_def)
  qed
qed

lemma is_period_stamp_last_digit: "is_period_stamp s \<Longrightarrow> is_digit (last s)"
proof -
  assume a: "is_period_stamp s"
  then have l: "length s = 8" and d: "list_all is_digit (drop 6 s)"
    by (simp_all add: is_period_stamp_def)
  from l have ne: "drop 6 s \<noteq> []" by simp
  then have "last (drop 6 s) \<in> set (drop 6 s)" by (rule last_in_set)
  moreover have "last (drop 6 s) = last s" using l by simp
  ultimately show ?thesis using d by (simp add: list_all_iff)
qed

lemma not_digit_LF: "\<not> is_digit char_LF"
  by (simp add: is_digit_def char_LF_def)

lemma at_eos_short: "at_eos x \<Longrightarrow> length x < 8"
  by (auto simp: at_eos_def)

lemma re_sub_empty_period_short:
  "length s < 8 \<Longrightarrow> re_sub_empty trailing_period_re b s = s"
proof (induction s arbitrary: b)
  case Nil
  then show ?case by simp
next
  case (Cons c cs)
  then have "\<not> is_period_stamp (take 8 (c # cs))" by (simp add: is_period_stamp_def)
  then show ?case using Cons by (simp add: match_at_period)
qed

lemma strip_period_nl_Cons:
  assumes "\<not> (is_period_stamp (take 8 (c # cs)) \<and> at_eos (drop 8 (c # cs)))"
  shows "strip_period_nl (c # cs) = c # strip_period_nl cs"
proof -
  have tp: "has_trailing_period (c # cs) = has_trailing_period cs"
  proof -
    have "\<not> (length cs = 7 \<and> is_period_stamp (c # cs))"
      using assms by (auto simp: at_eos_def)
    then show ?thesis by (auto simp: has_trailing_period_Cons)
  qed
  have nl: "has_period_before_newline (c # cs) = has_period_before_newline cs"
  proof (cases cs rule: rev_cases)
    case Nil
    then show ?thesis
      by (simp add: has_period_before_newline_def has_trailing_period_def is_period_stamp_def)
  next
    case (snoc bs x)
    have "\<not> (length bs = 7 \<and> is_period_stamp (c # bs) \<and> x = char_LF)"
      using assms snoc by (auto simp: at_eos_def)
    then show ?thesis
      using snoc by (auto simp: has_period_before_newline_def has_trailing_period_Cons)
  qed
  show ?thesis
  proof (cases "has_trailing_period cs")
    case True
    then have "8 \<le> length cs" by (rule has_trailing_period_length)
    then have "length (c # cs) - 8 = Suc (length cs - 8)" by simp
    then have "take (length (c # cs) - 8) (c # cs) = c # take (length cs - 8) cs"
      by (simp only: take_Suc_Cons)
    then show ?thesis using True tp by (simp only: strip_period_nl_def if_True)
  next
    case False
    show ?thesis
    proof (cases "has_period_before_newline cs")
      case True
      then have "8 \<le> length (butlast cs)"
        by (auto simp: has_period_before_newline_def dest: has_trailing_period_length)
      then have "9 \<le> length cs" by simp
      then have "length (c # cs) - 9 = Suc (length cs - 9)" by simp
      then have "take (length (c # cs) - 9) (c # cs) = c # take (length cs - 9) cs"
        by (simp only: take_Suc_Cons)
      then show ?thesis using True False tp nl
        by (simp only: strip_period_nl_def if_True if_False append_Cons)
    next
      case nf: False
      then show ?thesis using False tp nl by (simp only: strip_period_nl_def if_False)
    qed
  qed
qed

lemma strip_period_nl_match:
  assumes "is_period_stamp (take 8 s)" and "at_eos (drop 8 s)"
  shows "strip_period_nl s = drop 8 s"
proof -
  from assms(1) have "length (take 8 s) = 8" by (simp add: is_period_stamp_def)
  then have l: "8 \<le> length s" by (simp add: min_def split: if_splits)
  from assms(2) consider "drop 8 s = []" | "drop 8 s = [char_LF]" by (auto simp: at_eos_def)
  then show ?thesis
  proof cases
    case 1
    then have "length s = 8" using l by simp
    then show ?thesis using assms(1) 1 by (simp add: strip_period_nl_def has_trailing_period_def)
  next
    case 2
    then have s: "s = take 8 s @ [char_LF]" by (metis append_take_drop_id)
    have "length (drop 8 s) = 1" using 2 by simp
    then have len: "length s = 9" using l by simp
    have "\<not> has_trailing_period s"
    proof
      assume "has_trailing_period s"
      then have "is_digit (last (drop (length s - 8) s))"
        unfolding has_trailing_period_def by (rule is_period_stamp_last_digit)
      moreover have "last (drop (length s - 8) s) = last s" using len by simp
      moreover have "last s = char_LF" using s by (metis last_snoc)
      ultimately show False using not_digit_LF by simp
    qed
    moreover have "has_period_before_newline s"
    proof -
      have "butlast s = take 8 s" using s by (metis butlast_snoc)
      moreover have "last s = char_LF" using s by (metis last_snoc)
      moreover have "s \<noteq> []" using len by auto
      ultimately show ?thesis using assms(1)
        by (simp add: has_period_before_newline_def has_trailing_period_def min_def len)
    qed
    ultimately show ?thesis using 2 len by (simp add: strip_period_nl_def)
  qed
qed

lemma strip_trailing_eq: "re_sub_empty trailing_period_re b s = strip_period_nl s"
proof (induction s arbitrary: b)
  case Nil
  then show ?case
    by (simp add: strip_period_nl_def has_trailing_period_def has_period_before_newline_def
        is_period_stamp_def)
next
  case (Cons c cs)
  show ?case
  proof (cases "is_period_stamp (take 8 (c # cs)) \<and> at_eos (drop 8 (c # cs))")
    case True
    then have "at_eos (drop 8 (c # cs))" by blast
    then have "length (drop 8 (c # cs)) < 8" by (rule at_eos_short)
    then have "re_sub_empty trailing_period_re False (drop 8 (c # cs)) = drop 8 (c # cs)"
      by (rule re_sub_empty_period_short)
    moreover have "strip_period_nl (c # cs) = drop 8 (c # cs)"
      using True by (intro strip_period_nl_match) simp_all
    ultimately show ?thesis
      using True by (simp add: match_at_period atoms_period_length)
  next
    case False
    then have "strip_period_nl (c # cs) = c # strip_period_nl cs"
      by (rule strip_period_nl_Cons)
    then show ?thesis using False Cons.IH by (auto simp: match_at_period atoms_period_length)
  qed
qed

lemma normalize_prefix_eq: "normalize_prefix s = strip_period_nl (strip_date_spec s)"
  by (simp add: normalize_prefix_def strip_leading_eq strip_trailing_eq)

lemma length_strip_date_spec:
  "length (strip_date_spec s) = (if has_leading_date s then length s - 9 else length s)"
  by (simp add: strip_date_spec_def)

lemma has_leading_date_length: "has_leading_date s \<Longrightarrow> 9 \<le> length s"
  by (auto simp: has_leading_date_def is_date_stamp_def)

lemma length_strip_period_nl:
  "length (strip_period_nl s)
     = (if has_trailing_period s \<or> has_period_before_newline s then length s - 8 else length s)"
proof -
  have "9 \<le> length s" if "has_period_before_newline s"
  proof -
    from that have "8 \<le> length (butlast s)"
      by (auto simp: has_period_before_newline_def dest: has_trailing_period_length)
    then show ?thesis by simp
  qed
  then show ?thesis by (auto simp: strip_period_nl_def)
qed

lemma normalize_prefix_fixed_iff:
  "normalize_prefix y = y
     \<longleftrightarrow> \<not> has_leading_date y \<and> \<not> has_trailing_period y \<and> \<not> has_period_before_newline y"
proof
  assume fx: "normalize_prefix y = y"
  have le: "length (strip_period_nl z) \<le> length z" for z
    by (simp add: length_strip_period_nl)
  have nd: "\<not> has_leading_date y"
  proof
    assume d: "has_leading_date y"
    then have "9 \<le> length y" by (rule has_leading_date_length)
    moreover have "length (strip_date_spec y) = length y - 9"
      using d by (simp add: length_strip_date_spec)
    moreover have "length (normalize_prefix y) \<le> length (strip_date_spec y)"
      unfolding normalize_prefix_eq by (rule le)
    ultimately show False using fx by simp
  qed
  then have sd: "strip_date_spec y = y" by (simp add: strip_date_spec_def)
  have "\<not> (has_trailing_period y \<or> has_period_before_newline y)"
  proof
    assume p: "has_trailing_period y \<or> has_period_before_newline y"
    then have "8 \<le> length y"
      by (auto simp: has_period_before_newline_def dest: has_trailing_period_length)
    moreover have "length (normalize_prefix y) = length y - 8"
      using p unfolding normalize_prefix_eq sd by (simp add: length_strip_period_nl)
    ultimately show False using fx by simp
  qed
  with nd show "\<not> has_leading_date y \<and> \<not> has_trailing_period y \<and> \<not> has_period_before_newline y"
    by blast
next
  assume "\<not> has_leading_date y \<and> \<not> has_trailing_period y \<and> \<not> has_period_before_newline y"
  then show "normalize_prefix y = y"
    by (simp add: normalize_prefix_eq strip_date_spec_def strip_period_nl_def)
qed

lemma strip_date_spec_last:
  assumes "x = [] \<or> last x \<noteq> char_LF"
  shows "\<not> has_period_before_newline (strip_date_spec x)"
proof (cases "has_leading_date x \<and> drop 9 x \<noteq> []")
  case True
  then have "last (drop 9 x) = last x" by simp
  then show ?thesis using True assms
    by (auto simp: strip_date_spec_def has_period_before_newline_def)
next
  case False
  then show ?thesis using assms
    by (auto simp: strip_date_spec_def has_period_before_newline_def)
qed

section \<open>Results on \<open>normalize_prefix\<close>\<close>

text \<open>
  C3 does not hold for every input: a stem with two period stamps keeps one of them
  after the first pass and loses it in the second.
\<close>

theorem normalize_prefix_not_idempotent:
  "normalize_prefix (normalize_prefix ''a_2024_01_2024_01'') \<noteq> normalize_prefix ''a_2024_01_2024_01''"
  by code_simp

text \<open>
  C3, amended. A second pass changes nothing exactly when the result of the first pass
  neither begins with a date stamp nor ends with a period stamp, where a period stamp
  followed only by one final line feed counts as an ending one.
\<close>

theorem normalize_prefix_idempotent_iff:
  "normalize_prefix (normalize_prefix x) = normalize_prefix x
     \<longleftrightarrow> \<not> has_leading_date (normalize_prefix x)
         \<and> \<not> has_trailing_period (normalize_prefix x)
         \<and> \<not> has_period_before_newline (normalize_prefix x)"
  by (rule normalize_prefix_fixed_iff)

theorem normalize_prefix_idempotent_iff_witness:
  "\<not> has_leading_date (normalize_prefix ''20240115-bando_cig_2024_01'')
   \<and> \<not> has_trailing_period (normalize_prefix ''20240115-bando_cig_2024_01'')
   \<and> \<not> has_period_before_newline (normalize_prefix ''20240115-bando_cig_2024_01'')
   \<and> normalize_prefix (normalize_prefix ''20240115-bando_cig_2024_01'')
       = normalize_prefix ''20240115-bando_cig_2024_01''"
proof -
  have h: "\<not> has_leading_date (normalize_prefix ''20240115-bando_cig_2024_01'')
     \<and> \<not> has_trailing_period (normalize_prefix ''20240115-bando_cig_2024_01'')
     \<and> \<not> has_period_before_newline (normalize_prefix ''20240115-bando_cig_2024_01'')"
    by code_simp
  with normalize_prefix_idempotent_iff [of "''20240115-bando_cig_2024_01''"]
  show ?thesis by blast
qed

text \<open>
  C4 does not hold for every stem: a period stamp that is followed by a final line feed
  is not at the end of the stem, yet it is removed (the line feed stays).
\<close>

theorem normalize_prefix_newline_counterexample:
  "\<not> has_trailing_period (''a_2024_01'' @ [CHR 0x0A])
   \<and> normalize_spec (''a_2024_01'' @ [CHR 0x0A]) = ''a_2024_01'' @ [CHR 0x0A]
   \<and> normalize_prefix (''a_2024_01'' @ [CHR 0x0A]) = ''a'' @ [CHR 0x0A]"
  by code_simp

text \<open>
  C4, amended. For every stem the result is the stem with a leading date stamp removed
  if present and then a trailing period stamp removed if present, the second rewrite
  applied whether or not the first one matched; a period stamp followed only by one final
  line feed is removed as well. For a stem that does not end with a line feed this is the
  normalisation as the specification words it. The three examples hold.
\<close>

theorem normalize_prefix_rewrites:
  "normalize_prefix x = strip_period_nl (strip_date_spec x)
   \<and> (x = [] \<or> last x \<noteq> char_LF \<longrightarrow> normalize_prefix x = normalize_spec x)
   \<and> normalize_prefix ''20240115-bando_cig_2024_01'' = ''bando_cig''
   \<and> normalize_prefix ''bando_cig_2024_01'' = ''bando_cig''
   \<and> normalize_prefix ''bando_cig'' = ''bando_cig''"
proof (intro conjI impI)
  show "normalize_prefix x = strip_period_nl (strip_date_spec x)"
    by (rule normalize_prefix_eq)
next
  assume "x = [] \<or> last x \<noteq> char_LF"
  then have "\<not> has_period_before_newline (strip_date_spec x)"
    by (rule strip_date_spec_last)
  then show "normalize_prefix x = normalize_spec x"
    by (simp add: normalize_prefix_eq normalize_spec_def strip_period_nl_def strip_period_spec_def)
next
  show "normalize_prefix ''20240115-bando_cig_2024_01'' = ''bando_cig''" by code_simp
  show "normalize_prefix ''bando_cig_2024_01'' = ''bando_cig''" by code_simp
  show "normalize_prefix ''bando_cig'' = ''bando_cig''" by code_simp
qed

theorem normalize_prefix_rewrites_witness:
  "last ''20240101-smartcig_2023_12'' \<noteq> char_LF
   \<and> normalize_spec ''20240101-smartcig_2023_12'' = ''smartcig''
   \<and> normalize_prefix ''20240101-smartcig_2023_12'' = ''smartcig''"
proof -
  have h: "last ''20240101-smartcig_2023_12'' \<noteq> char_LF" by code_simp
  have s: "normalize_spec ''20240101-smartcig_2023_12'' = ''smartcig''" by code_simp
  from normalize_prefix_rewrites [of "''20240101-smartcig_2023_12''"] h
  have "normalize_prefix ''20240101-smartcig_2023_12'' = normalize_spec ''20240101-smartcig_2023_12''"
    by blast
  with h s show ?thesis by simp
qed

section \<open>Auxiliary facts on the file system\<close>

subsection \<open>The store and the creation of directories\<close>

lemma node_at_update:
  "k \<noteq> [] \<Longrightarrow> node_at (AList.update k v fs) q = (if q = k then Some v else node_at fs q)"
  by (simp add: node_at_def update_conv')

lemma is_dir_Nil [simp]: "is_dir fs []"
  by (simp add: is_dir_def node_at_def)

lemma mkdir_walk_preserve:
  "mkdir_walk fs up cs = Inr fs' \<Longrightarrow> node_at fs q = Some n \<Longrightarrow> node_at fs' q = Some n"
proof (induction cs arbitrary: fs up)
  case Nil
  then show ?case by simp
next
  case (Cons c cs)
  show ?case
  proof (cases "node_at fs (up @ [c])")
    case None
    then have w: "mkdir_walk (AList.update (up @ [c]) Dir fs) (up @ [c]) cs = Inr fs'"
      using Cons.prems(1) by simp
    have "q \<noteq> up @ [c]" using None Cons.prems(2) by auto
    then have "node_at (AList.update (up @ [c]) Dir fs) q = Some n"
      using Cons.prems(2) by (simp add: node_at_update)
    with w show ?thesis by (rule Cons.IH)
  next
    case (Some m)
    then show ?thesis
      using Cons.prems Cons.IH[of fs "up @ [c]"] by (cases m) (auto split: if_splits)
  qed
qed

lemma mkdir_walk_dirs:
  "mkdir_walk fs up cs = Inr fs' \<Longrightarrow> is_dir fs up \<Longrightarrow> k \<le> length cs
     \<Longrightarrow> is_dir fs' (up @ take k cs)"
proof (induction cs arbitrary: fs up k)
  case Nil
  then show ?case by simp
next
  case (Cons c cs)
  obtain fs2 where w: "mkdir_walk fs2 (up @ [c]) cs = Inr fs'" and d: "is_dir fs2 (up @ [c])"
    and p: "is_dir fs2 up"
  proof (cases "node_at fs (up @ [c])")
    case None
    let ?fs2 = "AList.update (up @ [c]) Dir fs"
    have "mkdir_walk ?fs2 (up @ [c]) cs = Inr fs'" using None Cons.prems(1) by simp
    moreover have "is_dir ?fs2 (up @ [c])" by (simp add: is_dir_def node_at_update)
    moreover have "is_dir ?fs2 up" using Cons.prems(2) by (simp add: is_dir_def node_at_update)
    ultimately show ?thesis by (rule that)
  next
    case (Some m)
    then have m: "m = Dir" using Cons.prems(1) by (cases m) auto
    have "mkdir_walk fs (up @ [c]) cs = Inr fs'" using Some m Cons.prems(1) by simp
    moreover have "is_dir fs (up @ [c])" using Some m by (simp add: is_dir_def)
    ultimately show ?thesis using Cons.prems(2) by (rule that)
  qed
  show ?case
  proof (cases k)
    case 0
    have "is_dir fs' up" using mkdir_walk_preserve[OF w] p by (simp add: is_dir_def)
    then show ?thesis using 0 by simp
  next
    case (Suc j)
    then have "j \<le> length cs" using Cons.prems(3) by simp
    with w d have "is_dir fs' ((up @ [c]) @ take j cs)" by (rule Cons.IH)
    then show ?thesis using Suc by simp
  qed
qed

lemma mkdir_walk_changes:
  "mkdir_walk fs up cs = Inr fs' \<Longrightarrow> node_at fs' q \<noteq> node_at fs q
     \<Longrightarrow> node_at fs q = None \<and> node_at fs' q = Some Dir \<and> prefix q (up @ cs)"
proof (induction cs arbitrary: fs up)
  case Nil
  then show ?case by simp
next
  case (Cons c cs)
  show ?case
  proof (cases "node_at fs (up @ [c])")
    case None
    let ?fs2 = "AList.update (up @ [c]) Dir fs"
    have w: "mkdir_walk ?fs2 (up @ [c]) cs = Inr fs'" using None Cons.prems(1) by simp
    show ?thesis
    proof (cases "q = up @ [c]")
      case True
      have "node_at ?fs2 q = Some Dir" using True by (simp add: node_at_update)
      then have "node_at fs' q = Some Dir" using mkdir_walk_preserve[OF w] by blast
      then show ?thesis using True None by simp
    next
      case False
      then have e: "node_at ?fs2 q = node_at fs q" by (simp add: node_at_update)
      then have "node_at fs' q \<noteq> node_at ?fs2 q" using Cons.prems(2) by simp
      with w have "node_at ?fs2 q = None \<and> node_at fs' q = Some Dir \<and> prefix q ((up @ [c]) @ cs)"
        by (rule Cons.IH)
      then show ?thesis using e by simp
    qed
  next
    case (Some m)
    then have m: "m = Dir" using Cons.prems(1) by (cases m) auto
    have "mkdir_walk fs (up @ [c]) cs = Inr fs'" using Some m Cons.prems(1) by simp
    then have "node_at fs q = None \<and> node_at fs' q = Some Dir \<and> prefix q ((up @ [c]) @ cs)"
      using Cons.prems(2) by (rule Cons.IH)
    then show ?thesis by simp
  qed
qed

lemma mkdir_parents_is_dir:
  assumes "mkdir_parents fs p = Inr fs'" and "prefix q p"
  shows "is_dir fs' q"
proof -
  from assms(2) have q: "q = take (length q) p" and l: "length q \<le> length p"
    by (auto simp: prefix_def)
  have "is_dir fs' ([] @ take (length q) p)"
    using assms(1) l unfolding mkdir_parents_def by (intro mkdir_walk_dirs) simp_all
  then show ?thesis using q by simp
qed

lemma mkdir_parents_keeps_dir:
  "mkdir_parents fs p = Inr fs' \<Longrightarrow> is_dir fs q \<Longrightarrow> is_dir fs' q"
  unfolding mkdir_parents_def is_dir_def by (rule mkdir_walk_preserve)

lemma mkdir_parents_other:
  assumes "mkdir_parents fs p = Inr fs'" and "\<not> prefix q p"
  shows "node_at fs' q = node_at fs q"
  using assms mkdir_walk_changes[of fs "[]" p fs' q] unfolding mkdir_parents_def by auto

lemma merge_csv_files_mkdir_error:
  "mkdir_parents (files w) output_path = Inl e
     \<Longrightarrow> merge_csv_files w source_path output_path prefix_names = (w, Inl e)"
  by (simp add: merge_csv_files_def)

lemma merge_csv_files_no_source:
  "mkdir_parents (files w) output_path = Inr fs1 \<Longrightarrow> \<not> is_dir fs1 source_path
     \<Longrightarrow> merge_csv_files w source_path output_path prefix_names
         = (\<lparr>files = fs1, stdout = stdout w @ [WarnNoSourceDir source_path]\<rparr>, Inr Map.empty)"
  by (simp add: merge_csv_files_def)

lemma merge_csv_files_no_prefixes:
  "mkdir_parents (files w) output_path = Inr fs1 \<Longrightarrow> is_dir fs1 source_path
     \<Longrightarrow> merge_csv_files w source_path output_path []
         = (\<lparr>files = fs1, stdout = stdout w @ [WarnNoPrefixes]\<rparr>, Inr Map.empty)"
  by (simp add: merge_csv_files_def)

section \<open>Results on \<open>merge_csv_files\<close>: the degenerate cases\<close>

text \<open>
  C5 does not hold for every output directory. When the output path is a regular file,
  creating the directory raises before the source directory is looked at. When the source
  directory is missing and is the output directory itself, it has been created by the
  time it is tested, so no warning is printed.
\<close>

theorem merge_csv_files_degenerate_counterexample:
  "merge_csv_files \<lparr>files = [([''out''], File [])], stdout = []\<rparr> [''missing''] [''out''] [''a'']
     = (\<lparr>files = [([''out''], File [])], stdout = []\<rparr>, Inl FileExistsError)
   \<and> merge_csv_files \<lparr>files = [], stdout = []\<rparr> [''d''] [''d''] [''a'']
       = (\<lparr>files = [([''d''], Dir)], stdout = []\<rparr>, Inr Map.empty)"
  by (simp add: merge_csv_files_def mkdir_parents_def node_at_def is_dir_def glob_csv_def
      dir_entries_def merge_one_def matched_files_def)

text \<open>
  C5, amended. Provided the output directory exists or can be created: when the source
  directory does not exist and the output directory is neither the source directory nor
  below it, the result is the empty mapping and the warning about the source directory is
  printed; when the source directory exists and the list of prefixes is empty, the result
  is the empty mapping and the warning about the prefixes is printed. Nothing is raised.
\<close>

theorem merge_csv_files_degenerate:
  assumes "mkdir_parents (files w) output_path = Inr fs1"
  shows "(\<not> is_dir (files w) source_path \<and> \<not> prefix source_path output_path \<longrightarrow>
            merge_csv_files w source_path output_path prefix_names
              = (\<lparr>files = fs1, stdout = stdout w @ [WarnNoSourceDir source_path]\<rparr>, Inr Map.empty))
         \<and> (is_dir (files w) source_path \<longrightarrow>
            merge_csv_files w source_path output_path []
              = (\<lparr>files = fs1, stdout = stdout w @ [WarnNoPrefixes]\<rparr>, Inr Map.empty))"
proof (intro conjI impI)
  assume a: "\<not> is_dir (files w) source_path \<and> \<not> prefix source_path output_path"
  then have "node_at fs1 source_path = node_at (files w) source_path"
    using assms mkdir_parents_other by blast
  then have "\<not> is_dir fs1 source_path" using a by (simp add: is_dir_def)
  with assms show "merge_csv_files w source_path output_path prefix_names
      = (\<lparr>files = fs1, stdout = stdout w @ [WarnNoSourceDir source_path]\<rparr>, Inr Map.empty)"
    by (rule merge_csv_files_no_source)
next
  assume "is_dir (files w) source_path"
  with assms have "is_dir fs1 source_path" by (rule mkdir_parents_keeps_dir)
  with assms show "merge_csv_files w source_path output_path []
      = (\<lparr>files = fs1, stdout = stdout w @ [WarnNoPrefixes]\<rparr>, Inr Map.empty)"
    by (rule merge_csv_files_no_prefixes)
qed

theorem merge_csv_files_degenerate_witness:
  "mkdir_parents [([''data''], Dir)] [''out'', ''csv'']
     = Inr [([''data''], Dir), ([''out''], Dir), ([''out'', ''csv''], Dir)]
   \<and> merge_csv_files \<lparr>files = [([''data''], Dir)], stdout = []\<rparr> [''missing''] [''out'', ''csv''] [''a'']
       = (\<lparr>files = [([''data''], Dir), ([''out''], Dir), ([''out'', ''csv''], Dir)],
           stdout = [WarnNoSourceDir [''missing'']]\<rparr>, Inr Map.empty)
   \<and> merge_csv_files \<lparr>files = [([''data''], Dir)], stdout = []\<rparr> [''data''] [''out'', ''csv''] []
       = (\<lparr>files = [([''data''], Dir), ([''out''], Dir), ([''out'', ''csv''], Dir)],
           stdout = [WarnNoPrefixes]\<rparr>, Inr Map.empty)"
proof -
  have mk: "mkdir_parents (files \<lparr>files = [([''data''], Dir)], stdout = []\<rparr>) [''out'', ''csv'']
     = Inr [([''data''], Dir), ([''out''], Dir), ([''out'', ''csv''], Dir)]"
    by (simp add: mkdir_parents_def node_at_def)
  have h1: "\<not> is_dir (files \<lparr>files = [([''data''], Dir)], stdout = []\<rparr>) [''missing'']
              \<and> \<not> prefix [''missing''] [''out'', ''csv'']"
    by (simp add: is_dir_def node_at_def)
  have h2: "is_dir (files \<lparr>files = [([''data''], Dir)], stdout = []\<rparr>) [''data'']"
    by (simp add: is_dir_def node_at_def)
  note t = merge_csv_files_degenerate [OF mk, where source_path = "[''missing'']" and prefix_names = "[''a'']"]
  note u = merge_csv_files_degenerate [OF mk, where source_path = "[''data'']"]
  from t h1 u h2 mk show ?thesis by simp
qed

text \<open>
  C10. The output directory is created, with its parents, before the source directory
  and the list of prefixes are tested: in both degenerate cases the function returns the
  empty mapping in a state where the output directory and all its ancestors are
  directories, the store being otherwise the one left by the creation; and when the
  creation fails, its exception is raised whatever the source directory and the prefixes.
\<close>

theorem merge_csv_files_creates_output_dir:
  "(mkdir_parents (files w) output_path = Inr fs1
      \<and> (\<not> is_dir fs1 source_path \<or> prefix_names = []) \<longrightarrow>
        (\<exists>warning. merge_csv_files w source_path output_path prefix_names
           = (\<lparr>files = fs1, stdout = stdout w @ [warning]\<rparr>, Inr Map.empty))
        \<and> is_dir fs1 output_path
        \<and> (\<forall>q. prefix q output_path \<longrightarrow> is_dir fs1 q))
   \<and> (mkdir_parents (files w) output_path = Inl e \<longrightarrow>
        merge_csv_files w source_path output_path prefix_names = (w, Inl e))"
proof (intro conjI impI allI)
  assume a: "mkdir_parents (files w) output_path = Inr fs1
      \<and> (\<not> is_dir fs1 source_path \<or> prefix_names = [])"
  show "\<exists>warning. merge_csv_files w source_path output_path prefix_names
           = (\<lparr>files = fs1, stdout = stdout w @ [warning]\<rparr>, Inr Map.empty)"
  proof (cases "is_dir fs1 source_path")
    case False
    then show ?thesis using a merge_csv_files_no_source by blast
  next
    case True
    then have "prefix_names = []" using a by blast
    then show ?thesis using a True merge_csv_files_no_prefixes by blast
  qed
  show "is_dir fs1 output_path" using a mkdir_parents_is_dir by blast
  fix q
  assume "prefix q output_path"
  then show "is_dir fs1 q" using a mkdir_parents_is_dir by blast
next
  assume "mkdir_parents (files w) output_path = Inl e"
  then show "merge_csv_files w source_path output_path prefix_names = (w, Inl e)"
    by (rule merge_csv_files_mkdir_error)
qed

theorem merge_csv_files_creates_output_dir_witness:
  "\<not> is_dir [] [''out'', ''csv'']
   \<and> mkdir_parents [] [''out'', ''csv''] = Inr [([''out''], Dir), ([''out'', ''csv''], Dir)]
   \<and> merge_csv_files \<lparr>files = [], stdout = []\<rparr> [''missing''] [''out'', ''csv''] [''a'']
       = (\<lparr>files = [([''out''], Dir), ([''out'', ''csv''], Dir)],
           stdout = [WarnNoSourceDir [''missing'']]\<rparr>, Inr Map.empty)
   \<and> is_dir [([''out''], Dir), ([''out'', ''csv''], Dir)] [''out'', ''csv'']
   \<and> is_dir [([''out''], Dir), ([''out'', ''csv''], Dir)] [''out'']"
proof -
  have mk: "mkdir_parents (files \<lparr>files = [], stdout = []\<rparr>) [''out'', ''csv'']
     = Inr [([''out''], Dir), ([''out'', ''csv''], Dir)]"
    by (simp add: mkdir_parents_def node_at_def)
  have h: "\<not> is_dir [([''out''], Dir), ([''out'', ''csv''], Dir)] [''missing'']"
    by (simp add: is_dir_def node_at_def)
  have n: "\<not> is_dir [] [''out'', ''csv'']" by (simp add: is_dir_def node_at_def)
  have p: "prefix [''out''] [''out'', ''csv'']" by simp
  note t = merge_csv_files_creates_output_dir [where w = "\<lparr>files = [], stdout = []\<rparr>"
      and output_path = "[''out'', ''csv'']" and source_path = "[''missing'']"
      and prefix_names = "[''a'']" and ?fs1.0 = "[([''out''], Dir), ([''out'', ''csv''], Dir)]"]
  from t mk h have 1: "\<exists>warning. merge_csv_files \<lparr>files = [], stdout = []\<rparr> [''missing''] [''out'', ''csv''] [''a'']
       = (\<lparr>files = [([''out''], Dir), ([''out'', ''csv''], Dir)],
           stdout = stdout \<lparr>files = [], stdout = []\<rparr> @ [warning]\<rparr>, Inr Map.empty)"
    and 2: "is_dir [([''out''], Dir), ([''out'', ''csv''], Dir)] [''out'', ''csv'']"
    and 3: "\<forall>q. prefix q [''out'', ''csv''] \<longrightarrow> is_dir [([''out''], Dir), ([''out'', ''csv''], Dir)] q"
    by blast+
  have 4: "merge_csv_files \<lparr>files = [], stdout = []\<rparr> [''missing''] [''out'', ''csv''] [''a'']
       = (\<lparr>files = [([''out''], Dir), ([''out'', ''csv''], Dir)],
           stdout = [WarnNoSourceDir [''missing'']]\<rparr>, Inr Map.empty)"
    using 1 mk h by (simp add: merge_csv_files_def)
  from 3 p have 5: "is_dir [([''out''], Dir), ([''out'', ''csv''], Dir)] [''out'']" by blast
  from n mk 4 2 5 show ?thesis by simp
qed

section \<open>Auxiliary facts on the merge loop\<close>

subsection \<open>Reading and writing\<close>

lemma read_text_file:
  "is_file fs p \<Longrightarrow> read_text fs p = Inr (universal_newlines (content_of fs p))"
  by (auto simp: is_file_def read_text_def content_of_def split: option.splits node.splits)

lemma read_text_Inr:
  "read_text fs p = Inr t \<Longrightarrow> is_file fs p \<and> t = universal_newlines (content_of fs p)"
  by (auto simp: is_file_def read_text_def content_of_def split: option.splits node.splits)

lemma write_matched_files:
  "(\<And>f. f \<in> set ms \<Longrightarrow> is_file fs f)
     \<Longrightarrow> write_matched fs p ms written out
         = (None, written @ merged_text fs ms, out @ map (\<lambda>f. MergedFile p (last f)) ms)"
proof (induction ms arbitrary: written out)
  case Nil
  then show ?case by (simp add: merged_text_def)
next
  case (Cons f ms)
  have "read_text fs f = Inr (universal_newlines (content_of fs f))"
    using Cons.prems by (intro read_text_file) simp
  then show ?case using Cons by (simp add: merged_text_def)
qed

lemma write_matched_None:
  "write_matched fs p ms written out = (None, b, l) \<Longrightarrow> f \<in> set ms \<Longrightarrow> is_file fs f"
proof (induction ms arbitrary: written out)
  case Nil
  then show ?case by simp
next
  case (Cons g ms)
  then obtain t where t: "read_text fs g = Inr t"
    by (cases "read_text fs g") auto
  then have g: "is_file fs g" using read_text_Inr by blast
  from Cons.prems(1) t
  have "write_matched fs p ms (written @ t) (out @ [MergedFile p (last g)]) = (None, b, l)"
    by simp
  then have "f \<in> set ms \<Longrightarrow> is_file fs f" by (rule Cons.IH)
  with g Cons.prems(2) show ?case by auto
qed

lemma open_write_Inr:
  "open_write fs p = Inr fs' \<Longrightarrow> fs' = AList.update p (File []) fs \<and> \<not> is_dir fs p"
  by (auto simp: open_write_def is_dir_def split: option.splits node.splits)

lemma open_write_ok:
  "\<not> is_dir fs p \<Longrightarrow> is_dir fs (butlast p) \<Longrightarrow> open_write fs p = Inr (AList.update p (File []) fs)"
  by (auto simp: open_write_def is_dir_def split: option.splits node.splits)

lemma target_of_neq_Nil [simp]: "target_of out p \<noteq> []"
  by (simp add: target_of_def)

lemma target_of_inj [simp]: "target_of out p = target_of out q \<longleftrightarrow> p = q"
  by (simp add: target_of_def)

lemma butlast_target_of [simp]: "butlast (target_of out p) = out"
  by (simp add: target_of_def)

subsection \<open>One pass of the loop over the prefixes\<close>

lemma merge_one_skip:
  "matched_files all_csv p = [] \<Longrightarrow> merge_one out all_csv p w res = (w, Inr res)"
  by (simp add: merge_one_def)

lemma merge_one_Inr:
  assumes m: "merge_one out all_csv p w res = (w', Inr res')"
    and ne: "matched_files all_csv p \<noteq> []"
  shows "\<exists>written.
           \<not> is_dir (files w) (target_of out p)
         \<and> (\<forall>f \<in> set (matched_files all_csv p).
               is_file (AList.update (target_of out p) (File []) (files w)) f)
         \<and> written = merged_text (AList.update (target_of out p) (File []) (files w))
                        (matched_files all_csv p)
         \<and> files w' = AList.update (target_of out p) (File written)
                        (AList.update (target_of out p) (File []) (files w))
         \<and> res' = res(p \<mapsto> \<lparr>output_file = path_str (target_of out p),
                               files_merged = length (matched_files all_csv p),
                               lines = length (text_lines (universal_newlines written))\<rparr>)"
proof -
  let ?cur = "target_of out p"
  let ?ms = "matched_files all_csv p"
  let ?fso = "AList.update ?cur (File []) (files w)"
  have cur: "out @ [p @ ''.csv''] = ?cur" by (simp add: target_of_def)
  obtain fso where o: "open_write (files w) ?cur = Inr fso"
    using m ne by (cases "open_write (files w) ?cur") (auto simp: merge_one_def Let_def cur)
  then have fso: "fso = ?fso" and nd: "\<not> is_dir (files w) ?cur"
    using open_write_Inr by blast+
  obtain err written out' where wm: "write_matched ?fso p ?ms [] (stdout w) = (err, written, out')"
    by (cases "write_matched ?fso p ?ms [] (stdout w)") auto
  have err: "err = None"
    using m ne o wm fso by (cases err) (auto simp: merge_one_def Let_def cur)
  then have files: "\<And>f. f \<in> set ?ms \<Longrightarrow> is_file ?fso f"
    using wm write_matched_None by blast
  then have "write_matched ?fso p ?ms [] (stdout w)
      = (None, [] @ merged_text ?fso ?ms, stdout w @ map (\<lambda>f. MergedFile p (last f)) ?ms)"
    by (rule write_matched_files)
  then have written: "written = merged_text ?fso ?ms" using wm by simp
  let ?fsc = "AList.update ?cur (File written) ?fso"
  have "is_file ?fsc ?cur" by (simp add: is_file_def node_at_update)
  then have rt: "read_text ?fsc ?cur = Inr (universal_newlines (content_of ?fsc ?cur))"
    by (rule read_text_file)
  have c: "content_of ?fsc ?cur = written" by (simp add: content_of_def node_at_update)
  from m ne o wm err fso rt c
  have "files w' = ?fsc"
    and "res' = res(p \<mapsto> \<lparr>output_file = path_str ?cur, files_merged = length ?ms,
                               lines = length (text_lines (universal_newlines written))\<rparr>)"
    by (auto simp: merge_one_def Let_def cur)
  with nd files written show ?thesis by blast
qed

lemma merge_one_node_at:
  assumes "merge_one out all_csv p w res = (w', Inr res')" and "q \<noteq> target_of out p"
  shows "node_at (files w') q = node_at (files w) q"
proof (cases "matched_files all_csv p = []")
  case True
  then show ?thesis using assms(1) by (simp add: merge_one_skip)
next
  case False
  with assms(1) have "\<exists>written. files w' = AList.update (target_of out p) (File written)
                        (AList.update (target_of out p) (File []) (files w))"
    using merge_one_Inr by blast
  then show ?thesis using assms(2) by (auto simp: node_at_update)
qed

lemma merge_one_total:
  assumes nd: "\<not> is_dir (files w) (target_of out p)" and od: "is_dir (files w) out"
    and fl: "\<And>f. f \<in> set (matched_files all_csv p) \<Longrightarrow> is_file (files w) f"
  shows "\<exists>w' res'. merge_one out all_csv p w res = (w', Inr res')"
proof (cases "matched_files all_csv p = []")
  case True
  then show ?thesis by (simp add: merge_one_skip)
next
  case False
  let ?cur = "target_of out p"
  let ?ms = "matched_files all_csv p"
  let ?fso = "AList.update ?cur (File []) (files w)"
  have cur: "out @ [p @ ''.csv''] = ?cur" by (simp add: target_of_def)
  have o: "open_write (files w) ?cur = Inr ?fso"
    using nd od by (intro open_write_ok) simp_all
  have "is_file ?fso f" if "f \<in> set ?ms" for f
    using fl[OF that] by (auto simp: is_file_def node_at_update)
  then have wm: "write_matched ?fso p ?ms [] (stdout w)
      = (None, [] @ merged_text ?fso ?ms, stdout w @ map (\<lambda>f. MergedFile p (last f)) ?ms)"
    by (rule write_matched_files)
  let ?fsc = "AList.update ?cur (File (merged_text ?fso ?ms)) ?fso"
  have "is_file ?fsc ?cur" by (simp add: is_file_def node_at_update)
  then have rt: "read_text ?fsc ?cur = Inr (universal_newlines (content_of ?fsc ?cur))"
    by (rule read_text_file)
  show ?thesis using False o wm rt by (simp add: merge_one_def Let_def cur)
qed

lemma merge_one_kinds:
  assumes "merge_one out all_csv p w res = (w', Inr res')"
  shows "(is_dir (files w') q \<longleftrightarrow> is_dir (files w) q)
         \<and> (is_file (files w) q \<longrightarrow> is_file (files w') q)"
proof (cases "matched_files all_csv p = []")
  case True
  then show ?thesis using assms by (simp add: merge_one_skip)
next
  case False
  with assms obtain written where nd: "\<not> is_dir (files w) (target_of out p)"
    and f: "files w' = AList.update (target_of out p) (File written)
                        (AList.update (target_of out p) (File []) (files w))"
    using merge_one_Inr by blast
  show ?thesis using nd by (auto simp: f is_dir_def is_file_def node_at_update)
qed

subsection \<open>The loop over the prefixes\<close>

lemma merge_loop_invariant:
  assumes "merge_loop out all_csv ps w res = (w', Inr res')" and "I w res"
    and step: "\<And>p w res w1 res1. p \<in> set ps \<Longrightarrow> I w res
                 \<Longrightarrow> merge_one out all_csv p w res = (w1, Inr res1) \<Longrightarrow> I w1 res1"
  shows "I w' res'"
  using assms
proof (induction ps arbitrary: w res)
  case Nil
  then show ?case by simp
next
  case (Cons p ps)
  obtain w1 r1 where m: "merge_one out all_csv p w res = (w1, r1)"
    by (cases "merge_one out all_csv p w res") auto
  then obtain res1 where r1: "r1 = Inr res1" using Cons.prems(1) by (cases r1) auto
  have l: "merge_loop out all_csv ps w1 res1 = (w', Inr res')"
    using Cons.prems(1) m r1 by simp
  have "merge_one out all_csv p w res = (w1, Inr res1)" using m r1 by simp
  with Cons.prems(2) have i: "I w1 res1" by (rule Cons.prems(3)[rotated]) simp
  show ?case using l i
  proof (rule Cons.IH)
    fix q v r v1 r1
    assume "q \<in> set ps" "I v r" "merge_one out all_csv q v r = (v1, Inr r1)"
    then show "I v1 r1" using Cons.prems(3)[of q v r v1 r1] by simp
  qed
qed

lemma merge_loop_dom:
  "merge_loop out all_csv ps w res = (w', Inr res')
     \<Longrightarrow> dom res' = dom res \<union> {p \<in> set ps. matched_files all_csv p \<noteq> []}"
proof (induction ps arbitrary: w res)
  case Nil
  then show ?case by auto
next
  case (Cons p ps)
  obtain w1 r1 where m: "merge_one out all_csv p w res = (w1, r1)"
    by (cases "merge_one out all_csv p w res") auto
  then obtain res1 where r1: "r1 = Inr res1" using Cons.prems(1) by (cases r1) auto
  have l: "merge_loop out all_csv ps w1 res1 = (w', Inr res')"
    using Cons.prems(1) m r1 by simp
  then have d: "dom res' = dom res1 \<union> {q \<in> set ps. matched_files all_csv q \<noteq> []}"
    by (rule Cons.IH)
  have "dom res1 = dom res \<union> (if matched_files all_csv p = [] then {} else {p})"
  proof (cases "matched_files all_csv p = []")
    case True
    then show ?thesis using m r1 by (simp add: merge_one_skip)
  next
    case False
    then obtain info where "res1 = res(p \<mapsto> info)"
      using m r1 merge_one_Inr[of out all_csv p w res w1 res1] by blast
    then show ?thesis using False by auto
  qed
  with d show ?case by auto
qed

lemma merge_loop_total:
  assumes "\<And>p. p \<in> set ps \<Longrightarrow> \<not> is_dir (files w) (target_of out p)"
    and "is_dir (files w) out"
    and "\<And>f. f \<in> set all_csv \<Longrightarrow> is_file (files w) f"
  shows "\<exists>w' res'. merge_loop out all_csv ps w res = (w', Inr res')"
  using assms
proof (induction ps arbitrary: w res)
  case Nil
  then show ?case by simp
next
  case (Cons p ps)
  have "\<exists>w1 res1. merge_one out all_csv p w res = (w1, Inr res1)"
  proof (rule merge_one_total)
    show "\<not> is_dir (files w) (target_of out p)" using Cons.prems(1) by simp
    show "is_dir (files w) out" by (rule Cons.prems(2))
    fix f
    assume "f \<in> set (matched_files all_csv p)"
    then have "f \<in> set all_csv" by (simp add: matched_files_def)
    then show "is_file (files w) f" by (rule Cons.prems(3))
  qed
  then obtain w1 res1 where m: "merge_one out all_csv p w res = (w1, Inr res1)" by blast
  note k = merge_one_kinds[OF m]
  have "\<exists>w' res'. merge_loop out all_csv ps w1 res1 = (w', Inr res')"
  proof (rule Cons.IH)
    fix q
    assume "q \<in> set ps"
    then show "\<not> is_dir (files w1) (target_of out q)" using k Cons.prems(1) by simp
  next
    show "is_dir (files w1) out" using k Cons.prems(2) by simp
  next
    fix f
    assume "f \<in> set all_csv"
    then show "is_file (files w1) f" using k Cons.prems(3) by blast
  qed
  then show ?case using m by simp
qed

lemma matched_files_empty_iff:
  "matched_files (sort g) p \<noteq> [] \<longleftrightarrow> (\<exists>f \<in> set g. normalize_prefix (py_stem (last f)) = p)"
  by (auto simp: matched_files_def filter_empty_conv)

lemma merge_csv_files_loop:
  assumes "mkdir_parents (files w) out = Inr fs1"
    and "merge_csv_files w src out ps = (w', Inr m)"
  shows "(m = Map.empty \<and> (\<not> is_dir fs1 src \<or> ps = []))
         \<or> (is_dir fs1 src \<and> merge_loop out (sort (glob_csv fs1 src)) ps
                \<lparr>files = fs1, stdout = stdout w\<rparr> Map.empty = (w', Inr m))"
  using assms by (auto simp: merge_csv_files_def split: if_splits)

lemma merge_csv_files_dom:
  assumes "mkdir_parents (files w) out = Inr fs1"
    and r: "merge_csv_files w src out ps = (w', Inr m)"
  shows "dom m = {p \<in> set ps. \<exists>f \<in> set (glob_csv fs1 src). normalize_prefix (py_stem (last f)) = p}"
  using merge_csv_files_loop[OF assms]
proof
  assume "m = Map.empty \<and> (\<not> is_dir fs1 src \<or> ps = [])"
  then show ?thesis by (auto simp: glob_csv_def)
next
  assume "is_dir fs1 src \<and> merge_loop out (sort (glob_csv fs1 src)) ps
            \<lparr>files = fs1, stdout = stdout w\<rparr> Map.empty = (w', Inr m)"
  then have "dom m = dom (Map.empty :: merge_result)
               \<union> {p \<in> set ps. matched_files (sort (glob_csv fs1 src)) p \<noteq> []}"
    using merge_loop_dom by blast
  then show ?thesis by (simp add: matched_files_empty_iff)
qed

lemma merge_csv_files_returns:
  assumes mk: "mkdir_parents (files w) out = Inr fs1"
    and fl: "\<And>f. f \<in> set (glob_csv fs1 src) \<Longrightarrow> is_file fs1 f"
    and nd: "\<And>p. p \<in> set ps \<Longrightarrow> \<not> is_dir fs1 (target_of out p)"
  shows "\<exists>w' m. merge_csv_files w src out ps = (w', Inr m)"
proof -
  have od: "is_dir fs1 out" using mk mkdir_parents_is_dir by blast
  have "\<exists>w' res'. merge_loop out (sort (glob_csv fs1 src)) ps
            \<lparr>files = fs1, stdout = stdout w\<rparr> Map.empty = (w', Inr res')"
    using fl nd od by (intro merge_loop_total) simp_all
  then show ?thesis using mk by (simp add: merge_csv_files_def)
qed

section \<open>Results on \<open>merge_csv_files\<close>: the entries of the summary\<close>

text \<open>
  C6. The mapping returned has exactly one entry for each requested prefix to which at
  least one \<^verbatim>\<open>*.csv\<close> entry of the source directory normalises, and no entry for any
  other prefix. The function does return a mapping whenever those entries are regular
  files and no output file name is taken by a directory; a prefix without a file never
  causes an exception.
\<close>

theorem merge_csv_files_keys:
  assumes "mkdir_parents (files w) output_path = Inr fs1"
  shows "(\<forall>w' m. merge_csv_files w source_path output_path prefix_names = (w', Inr m) \<longrightarrow>
            dom m = {p \<in> set prefix_names.
                       \<exists>f \<in> set (glob_csv fs1 source_path). normalize_prefix (py_stem (last f)) = p})
         \<and> ((\<forall>f \<in> set (glob_csv fs1 source_path). is_file fs1 f)
              \<and> (\<forall>p \<in> set prefix_names. \<not> is_dir fs1 (target_of output_path p)) \<longrightarrow>
            (\<exists>w' m. merge_csv_files w source_path output_path prefix_names = (w', Inr m)))"
proof (intro conjI allI impI)
  fix w' m
  assume "merge_csv_files w source_path output_path prefix_names = (w', Inr m)"
  with assms show "dom m = {p \<in> set prefix_names.
                  \<exists>f \<in> set (glob_csv fs1 source_path). normalize_prefix (py_stem (last f)) = p}"
    by (rule merge_csv_files_dom)
next
  assume a: "(\<forall>f \<in> set (glob_csv fs1 source_path). is_file fs1 f)
              \<and> (\<forall>p \<in> set prefix_names. \<not> is_dir fs1 (target_of output_path p))"
  show "\<exists>w' m. merge_csv_files w source_path output_path prefix_names = (w', Inr m)"
    using assms a by (intro merge_csv_files_returns) blast+
qed

theorem merge_csv_files_keys_witness:
  "mkdir_parents [([''s''], Dir), ([''s'', ''a_2024_01.csv''], File ''x''), ([''s'', ''b.csv''], File ''y'')] [''o'']
     = Inr [([''s''], Dir), ([''s'', ''a_2024_01.csv''], File ''x''), ([''s'', ''b.csv''], File ''y''),
            ([''o''], Dir)]
   \<and> (\<exists>w' m. merge_csv_files
                 \<lparr>files = [([''s''], Dir), ([''s'', ''a_2024_01.csv''], File ''x''),
                           ([''s'', ''b.csv''], File ''y'')], stdout = []\<rparr>
                 [''s''] [''o''] [''a'', ''zz''] = (w', Inr m)
              \<and> dom m = {''a''})"
proof -
  let ?fs = "[([''s''], Dir), ([''s'', ''a_2024_01.csv''], File ''x''), ([''s'', ''b.csv''], File ''y'')]"
  let ?fs1 = "[([''s''], Dir), ([''s'', ''a_2024_01.csv''], File ''x''), ([''s'', ''b.csv''], File ''y''),
               ([''o''], Dir)]"
  have mk: "mkdir_parents (files \<lparr>files = ?fs, stdout = []\<rparr>) [''o''] = Inr ?fs1"
    by (simp add: mkdir_parents_def node_at_def)
  have g: "glob_csv ?fs1 [''s''] = [[''s'', ''a_2024_01.csv''], [''s'', ''b.csv'']]"
    by code_simp
  have n: "normalize_prefix (py_stem ''a_2024_01.csv'') = ''a''"
    "normalize_prefix (py_stem ''b.csv'') = ''b''"
    by code_simp+
  have f: "\<forall>f \<in> set (glob_csv ?fs1 [''s'']). is_file ?fs1 f"
    unfolding g by (simp add: is_file_def node_at_def)
  have d: "\<forall>p \<in> set [''a'', ''zz'']. \<not> is_dir ?fs1 (target_of [''o''] p)"
    by (simp add: is_dir_def node_at_def target_of_def)
  note t = merge_csv_files_keys [OF mk, where source_path = "[''s'']" and prefix_names = "[''a'', ''zz'']"]
  from t f d obtain w' m where r: "merge_csv_files \<lparr>files = ?fs, stdout = []\<rparr> [''s''] [''o'']
      [''a'', ''zz''] = (w', Inr m)"
    by blast
  with t have "dom m = {p \<in> set [''a'', ''zz''].
      \<exists>f \<in> set (glob_csv ?fs1 [''s'']). normalize_prefix (py_stem (last f)) = p}"
    by blast
  also have "\<dots> = {''a''}" unfolding g by (auto simp: n)
  finally show ?thesis using mk r by auto
qed

subsection \<open>Lines of a text\<close>

lemma universal_newlines_no_CR: "char_CR \<notin> set (universal_newlines s)"
  by (induction s rule: universal_newlines.induct) (auto simp: char_CR_def char_LF_def)

lemma universal_newlines_id: "char_CR \<notin> set s \<Longrightarrow> universal_newlines s = s"
  by (induction s rule: universal_newlines.induct) auto

lemma universal_newlines_Nil_iff: "universal_newlines s = [] \<longleftrightarrow> s = []"
  by (induction s rule: universal_newlines.induct) auto

lemma last_universal_newlines:
  "s \<noteq> [] \<Longrightarrow> last (universal_newlines s) = char_LF \<longleftrightarrow> last s = char_LF \<or> last s = char_CR"
proof (induction s rule: universal_newlines.induct)
  case 1
  then show ?case by simp
next
  case (2 c)
  then show ?case by (auto simp: char_CR_def char_LF_def)
next
  case (3 c d cs)
  show ?case
  proof (cases "c = char_CR \<and> d = char_LF")
    case True
    then show ?thesis using 3 by (cases "cs = []") (auto simp: universal_newlines_Nil_iff)
  next
    case False
    have ne: "universal_newlines (d # cs) \<noteq> []" by (simp add: universal_newlines_Nil_iff)
    show ?thesis
    proof (cases "c = char_CR")
      case True
      then have "universal_newlines (c # d # cs) = char_LF # universal_newlines (d # cs)"
        using False by simp
      then show ?thesis using ne 3(2)[OF False True] by simp
    next
      case nc: False
      then have "universal_newlines (c # d # cs) = c # universal_newlines (d # cs)"
        by simp
      then show ?thesis using ne 3(3)[OF False nc] by simp
    qed
  qed
qed

lemma text_lines_Nil_iff: "text_lines s = [] \<longleftrightarrow> s = []"
  by (cases s) (auto split: list.splits)

lemma text_lines_append:
  "a = [] \<or> last a = char_LF \<Longrightarrow> text_lines (a @ b) = text_lines a @ text_lines b"
proof (induction a)
  case Nil
  then show ?case by simp
next
  case (Cons c a)
  show ?case
  proof (cases "c = char_LF")
    case True
    have "a = [] \<or> last a = char_LF" using Cons.prems by (cases "a = []") auto
    then show ?thesis using True Cons.IH by simp
  next
    case False
    then have ne: "a \<noteq> []" using Cons.prems by auto
    then have "last a = char_LF" using Cons.prems by simp
    then have e: "text_lines (a @ b) = text_lines a @ text_lines b" using Cons.IH by simp
    obtain l ls where l: "text_lines a = l # ls"
      using ne text_lines_Nil_iff[of a] by (cases "text_lines a") auto
    show ?thesis using False e l by simp
  qed
qed

lemma read_text_cong: "node_at fs p = node_at fs' p \<Longrightarrow> read_text fs p = read_text fs' p"
  by (simp add: read_text_def)

lemma content_of_cong: "node_at fs p = node_at fs' p \<Longrightarrow> content_of fs p = content_of fs' p"
  by (simp add: content_of_def)

lemma merged_text_cong:
  assumes "\<And>f. f \<in> set ms \<Longrightarrow> node_at fs f = node_at fs' f"
  shows "merged_text fs ms = merged_text fs' ms"
proof -
  have "universal_newlines (content_of fs f) = universal_newlines (content_of fs' f)"
    if "f \<in> set ms" for f
    using content_of_cong[OF assms[OF that]] by simp
  then have "map (\<lambda>f. universal_newlines (content_of fs f)) ms
           = map (\<lambda>f. universal_newlines (content_of fs' f)) ms"
    by (intro map_cong refl)
  then show ?thesis unfolding merged_text_def by (rule arg_cong)
qed

lemma merged_text_no_CR: "char_CR \<notin> set (merged_text fs ms)"
  by (auto simp: merged_text_def universal_newlines_no_CR)

lemma glob_csv_distinct: "distinct (glob_csv fs d)"
  by (simp add: glob_csv_def dir_entries_def)

lemma path_snoc_le: "(a :: string) \<le> b \<Longrightarrow> d @ [a] \<le> d @ [b]"
  by (induction d) (auto simp: le_less)

lemma sort_two:
  assumes "set g = {x, y}" and "distinct g" and "x < y"
  shows "sort g = [x, y]"
proof -
  have "sorted [x, y]" "distinct [x, y]" using assms(3) by simp_all
  moreover have "sorted (sort g)" "distinct (sort g)" "set (sort g) = set [x, y]"
    using assms(1,2) by simp_all
  ultimately show ?thesis by (metis sorted_distinct_set_unique)
qed

lemma merge_csv_files_entries_general:
  assumes mk: "mkdir_parents (files w) out = Inr fs1"
    and r: "merge_csv_files w src out ps = (w', Inr m)" and e: "m p = Some info"
  shows "files_merged info = length (matched_files (sort (glob_csv fs1 src)) p)
         \<and> output_file info = path_str (target_of out p)
         \<and> (\<exists>text. read_text (files w') (target_of out p) = Inr text
                \<and> lines info = length (text_lines text))"
proof -
  let ?all = "sort (glob_csv fs1 src)"
  let ?I = "\<lambda>v (res :: merge_result). \<forall>q i. res q = Some i \<longrightarrow>
              files_merged i = length (matched_files ?all q)
            \<and> output_file i = path_str (target_of out q)
            \<and> (\<exists>text. read_text (files v) (target_of out q) = Inr text
                   \<and> lines i = length (text_lines text))"
  from merge_csv_files_loop[OF mk r] e
  have l: "merge_loop out ?all ps \<lparr>files = fs1, stdout = stdout w\<rparr> Map.empty = (w', Inr m)"
    by auto
  have "?I w' m"
    using l
  proof (rule merge_loop_invariant)
    show "?I \<lparr>files = fs1, stdout = stdout w\<rparr> Map.empty" by simp
  next
    fix q v res v1 res1
    assume i: "?I v res" and m1: "merge_one out ?all q v res = (v1, Inr res1)"
    show "?I v1 res1"
    proof (cases "matched_files ?all q = []")
      case True
      then show ?thesis using i m1 by (simp add: merge_one_skip)
    next
      case False
      from merge_one_Inr[OF m1 False] obtain written
        where f: "files v1 = AList.update (target_of out q) (File written)
                        (AList.update (target_of out q) (File []) (files v))"
          and res1: "res1 = res(q \<mapsto> \<lparr>output_file = path_str (target_of out q),
                               files_merged = length (matched_files ?all q),
                               lines = length (text_lines (universal_newlines written))\<rparr>)"
        by blast
      have rq: "read_text (files v1) (target_of out q) = Inr (universal_newlines written)"
        by (simp add: f read_text_def node_at_update)
      show ?thesis
      proof (intro allI impI)
        fix q' i'
        assume a: "res1 q' = Some i'"
        show "files_merged i' = length (matched_files ?all q')
            \<and> output_file i' = path_str (target_of out q')
            \<and> (\<exists>text. read_text (files v1) (target_of out q') = Inr text
                   \<and> lines i' = length (text_lines text))"
        proof (cases "q' = q")
          case True
          then show ?thesis using a res1 rq by auto
        next
          case False
          then have "res q' = Some i'" using a res1 by simp
          moreover have "read_text (files v1) (target_of out q') = read_text (files v) (target_of out q')"
            using False by (intro read_text_cong merge_one_node_at[OF m1]) simp
          ultimately show ?thesis using i by simp
        qed
      qed
    qed
  qed
  then show ?thesis using e by blast
qed

lemma merge_csv_files_two_files:
  assumes mk: "mkdir_parents (files w) out = Inr fs1"
    and sd: "is_dir fs1 src"
    and g: "{f \<in> set (glob_csv fs1 src). normalize_prefix (py_stem (last f)) = ''a''}
              = {src @ [''a_2024_01.csv''], src @ [''a_2024_02.csv'']}"
    and c1: "node_at fs1 (src @ [''a_2024_01.csv'']) = Some (File c1)"
    and c2: "node_at fs1 (src @ [''a_2024_02.csv'']) = Some (File c2)"
    and l1: "length (text_lines (universal_newlines c1)) = 2"
    and t1: "last c1 = char_LF \<or> last c1 = char_CR"
    and l2: "length (text_lines (universal_newlines c2)) = 3"
    and nd: "\<not> is_dir fs1 (target_of out ''a'')"
  shows "\<exists>w'. merge_csv_files w src out [''a'']
           = (w', Inr [''a'' \<mapsto> \<lparr>output_file = path_str (target_of out ''a''),
                                    files_merged = 2, lines = 5\<rparr>])"
proof -
  let ?f1 = "src @ [''a_2024_01.csv'']"
  let ?f2 = "src @ [''a_2024_02.csv'']"
  let ?cur = "target_of out ''a''"
  let ?w1 = "\<lparr>files = fs1, stdout = stdout w\<rparr>"
  let ?all = "sort (glob_csv fs1 src)"
  let ?P = "\<lambda>f. normalize_prefix (py_stem (last f)) = ''a''"
  have lt: "''a_2024_01.csv'' < ''a_2024_02.csv''" by code_simp
  then have le: "?f1 \<le> ?f2" by (intro path_snoc_le) simp
  have neq: "?f1 \<noteq> ?f2" by simp
  from le neq have less: "?f1 < ?f2" by (rule le_neq_trans)
  have "set (filter ?P (glob_csv fs1 src)) = {?f1, ?f2}" using g by simp
  moreover have "distinct (filter ?P (glob_csv fs1 src))" using glob_csv_distinct by simp
  ultimately have "sort (filter ?P (glob_csv fs1 src)) = [?f1, ?f2]" using less by (rule sort_two)
  then have ms: "matched_files ?all ''a'' = [?f1, ?f2]"
    by (simp add: matched_files_def filter_sort)
  have od: "is_dir fs1 out" using mk mkdir_parents_is_dir by blast
  have fl: "is_file fs1 ?f1" "is_file fs1 ?f2" using c1 c2 by (simp_all add: is_file_def)
  have "\<exists>w' res'. merge_one out ?all ''a'' ?w1 Map.empty = (w', Inr res')"
    using nd od fl by (intro merge_one_total) (auto simp: ms)
  then obtain w' res' where m1: "merge_one out ?all ''a'' ?w1 Map.empty = (w', Inr res')"
    by blast
  have ne: "matched_files ?all ''a'' \<noteq> []" by (simp add: ms)
  let ?fso = "AList.update ?cur (File []) fs1"
  from merge_one_Inr[OF m1 ne]
  have res': "res' = [''a'' \<mapsto> \<lparr>output_file = path_str ?cur, files_merged = 2,
                 lines = length (text_lines (universal_newlines (merged_text ?fso [?f1, ?f2])))\<rparr>]"
    by (simp add: ms numeral_2_eq_2)
  have "?f1 \<noteq> ?cur" "?f2 \<noteq> ?cur" by (auto simp: target_of_def)
  then have "merged_text ?fso [?f1, ?f2] = merged_text fs1 [?f1, ?f2]"
    by (intro merged_text_cong) (auto simp: node_at_update)
  also have "\<dots> = universal_newlines c1 @ universal_newlines c2"
    using c1 c2 by (simp add: merged_text_def content_of_def)
  finally have mt: "merged_text ?fso [?f1, ?f2] = universal_newlines c1 @ universal_newlines c2" .
  have nocr: "char_CR \<notin> set (universal_newlines c1 @ universal_newlines c2)"
    using universal_newlines_no_CR by simp
  have "c1 \<noteq> []" using l1 by auto
  then have "last (universal_newlines c1) = char_LF" using t1 by (simp add: last_universal_newlines)
  then have "text_lines (universal_newlines c1 @ universal_newlines c2)
      = text_lines (universal_newlines c1) @ text_lines (universal_newlines c2)"
    by (intro text_lines_append) simp
  then have "length (text_lines (universal_newlines (merged_text ?fso [?f1, ?f2]))) = 5"
    using l1 l2 by (simp add: mt universal_newlines_id[OF nocr])
  with res' have "res' = [''a'' \<mapsto> \<lparr>output_file = path_str ?cur, files_merged = 2, lines = 5\<rparr>]"
    by simp
  with m1 have "merge_csv_files w src out [''a'']
      = (w', Inr [''a'' \<mapsto> \<lparr>output_file = path_str ?cur, files_merged = 2, lines = 5\<rparr>])"
    using mk sd by (simp add: merge_csv_files_def)
  then show ?thesis by blast
qed

text \<open>
  C7 does not hold as stated: the number of lines of the merged file is the sum of the
  lines of the two files only when the first one ends with a line terminator. With a first
  file of two lines whose last line is not terminated, the summary counts four lines.
\<close>

theorem merge_csv_files_lines_counterexample:
  "length (text_lines (universal_newlines (''x'' @ [CHR 0x0A] @ ''y''))) = 2
   \<and> length (text_lines (universal_newlines
                (''a'' @ [CHR 0x0A] @ ''b'' @ [CHR 0x0A] @ ''c'' @ [CHR 0x0A]))) = 3
   \<and> (case snd (merge_csv_files
                  \<lparr>files = [([''s''], Dir),
                            ([''s'', ''a_2024_01.csv''], File (''x'' @ [CHR 0x0A] @ ''y'')),
                            ([''s'', ''a_2024_02.csv''],
                               File (''a'' @ [CHR 0x0A] @ ''b'' @ [CHR 0x0A] @ ''c'' @ [CHR 0x0A]))],
                    stdout = []\<rparr>
                  [''s''] [''o''] [''a''])
       of Inl e \<Rightarrow> None | Inr m \<Rightarrow> m ''a'')
      = Some \<lparr>output_file = ''o/a.csv'', files_merged = 2, lines = 4\<rparr>"
  by code_simp

text \<open>
  C7, amended. For every prefix in the summary, \<open>files_merged\<close> is the number of files
  matched and concatenated for it, \<open>output_file\<close> is the path of its output file, and
  \<open>lines\<close> is the number of lines read back from that file in the final state. On a
  source directory containing \<^verbatim>\<open>a_2024_01.csv\<close> with two lines, the last one ending
  with a line terminator, and \<^verbatim>\<open>a_2024_02.csv\<close> with three lines, these two being the
  entries that normalise to \<^verbatim>\<open>a\<close>, the prefix list \<^verbatim>\<open>["a"]\<close> yields exactly the
  entry with two files and five lines.
\<close>

theorem merge_csv_files_entries:
  assumes "mkdir_parents (files w) output_path = Inr fs1"
  shows "(\<forall>w' m p info.
            merge_csv_files w source_path output_path prefix_names = (w', Inr m)
            \<and> m p = Some info \<longrightarrow>
              files_merged info = length (matched_files (sort (glob_csv fs1 source_path)) p)
            \<and> output_file info = path_str (target_of output_path p)
            \<and> (\<exists>text. read_text (files w') (target_of output_path p) = Inr text
                   \<and> lines info = length (text_lines text)))
         \<and> (is_dir fs1 source_path
            \<and> {f \<in> set (glob_csv fs1 source_path). normalize_prefix (py_stem (last f)) = ''a''}
                = {source_path @ [''a_2024_01.csv''], source_path @ [''a_2024_02.csv'']}
            \<and> node_at fs1 (source_path @ [''a_2024_01.csv'']) = Some (File c1)
            \<and> node_at fs1 (source_path @ [''a_2024_02.csv'']) = Some (File c2)
            \<and> length (text_lines (universal_newlines c1)) = 2
            \<and> (last c1 = char_LF \<or> last c1 = char_CR)
            \<and> length (text_lines (universal_newlines c2)) = 3
            \<and> \<not> is_dir fs1 (target_of output_path ''a'') \<longrightarrow>
            (\<exists>w'. merge_csv_files w source_path output_path [''a'']
               = (w', Inr [''a'' \<mapsto> \<lparr>output_file = path_str (target_of output_path ''a''),
                                        files_merged = 2, lines = 5\<rparr>])))"
proof (intro conjI allI impI)
  fix w' m p info
  assume a: "merge_csv_files w source_path output_path prefix_names = (w', Inr m)
            \<and> m p = Some info"
  then have r: "merge_csv_files w source_path output_path prefix_names = (w', Inr m)"
    and e: "m p = Some info" by simp_all
  note t = merge_csv_files_entries_general[OF assms r e]
  from t show "files_merged info = length (matched_files (sort (glob_csv fs1 source_path)) p)"
    by blast
  from t show "output_file info = path_str (target_of output_path p)" by blast
  from t show "\<exists>text. read_text (files w') (target_of output_path p) = Inr text
                   \<and> lines info = length (text_lines text)" by blast
next
  assume "is_dir fs1 source_path
            \<and> {f \<in> set (glob_csv fs1 source_path). normalize_prefix (py_stem (last f)) = ''a''}
                = {source_path @ [''a_2024_01.csv''], source_path @ [''a_2024_02.csv'']}
            \<and> node_at fs1 (source_path @ [''a_2024_01.csv'']) = Some (File c1)
            \<and> node_at fs1 (source_path @ [''a_2024_02.csv'']) = Some (File c2)
            \<and> length (text_lines (universal_newlines c1)) = 2
            \<and> (last c1 = char_LF \<or> last c1 = char_CR)
            \<and> length (text_lines (universal_newlines c2)) = 3
            \<and> \<not> is_dir fs1 (target_of output_path ''a'')"
  then show "\<exists>w'. merge_csv_files w source_path output_path [''a'']
               = (w', Inr [''a'' \<mapsto> \<lparr>output_file = path_str (target_of output_path ''a''),
                                        files_merged = 2, lines = 5\<rparr>])"
    by (elim conjE) (rule merge_csv_files_two_files[OF assms])
qed

theorem merge_csv_files_entries_witness:
  "mkdir_parents [([''s''], Dir),
                  ([''s'', ''a_2024_01.csv''], File (''h'' @ [CHR 0x0A] @ ''r'' @ [CHR 0x0A])),
                  ([''s'', ''a_2024_02.csv''],
                     File (''h'' @ [CHR 0x0A] @ ''p'' @ [CHR 0x0A] @ ''q'' @ [CHR 0x0A]))] [''o'']
     = Inr [([''s''], Dir),
            ([''s'', ''a_2024_01.csv''], File (''h'' @ [CHR 0x0A] @ ''r'' @ [CHR 0x0A])),
            ([''s'', ''a_2024_02.csv''],
               File (''h'' @ [CHR 0x0A] @ ''p'' @ [CHR 0x0A] @ ''q'' @ [CHR 0x0A])),
            ([''o''], Dir)]
   \<and> (\<exists>w'. merge_csv_files
               \<lparr>files = [([''s''], Dir),
                         ([''s'', ''a_2024_01.csv''], File (''h'' @ [CHR 0x0A] @ ''r'' @ [CHR 0x0A])),
                         ([''s'', ''a_2024_02.csv''],
                            File (''h'' @ [CHR 0x0A] @ ''p'' @ [CHR 0x0A] @ ''q'' @ [CHR 0x0A]))],
                 stdout = []\<rparr> [''s''] [''o''] [''a'']
             = (w', Inr [''a'' \<mapsto> \<lparr>output_file = ''o/a.csv'', files_merged = 2, lines = 5\<rparr>])
           \<and> (\<exists>text. read_text (files w') [''o'', ''a.csv''] = Inr text
                  \<and> length (text_lines text) = 5))"
proof -
  let ?c1 = "''h'' @ [CHR 0x0A] @ ''r'' @ [CHR 0x0A]"
  let ?c2 = "''h'' @ [CHR 0x0A] @ ''p'' @ [CHR 0x0A] @ ''q'' @ [CHR 0x0A]"
  let ?fs = "[([''s''], Dir), ([''s'', ''a_2024_01.csv''], File ?c1),
              ([''s'', ''a_2024_02.csv''], File ?c2)]"
  let ?fs1 = "[([''s''], Dir), ([''s'', ''a_2024_01.csv''], File ?c1),
               ([''s'', ''a_2024_02.csv''], File ?c2), ([''o''], Dir)]"
  let ?w = "\<lparr>files = ?fs, stdout = []\<rparr>"
  have mk: "mkdir_parents (files ?w) [''o''] = Inr ?fs1"
    by (simp add: mkdir_parents_def node_at_def)
  have g: "glob_csv ?fs1 [''s''] = [[''s'', ''a_2024_01.csv''], [''s'', ''a_2024_02.csv'']]"
    by code_simp
  have n: "normalize_prefix (py_stem ''a_2024_01.csv'') = ''a''"
    "normalize_prefix (py_stem ''a_2024_02.csv'') = ''a''"
    by code_simp+
  have h: "is_dir ?fs1 [''s'']
      \<and> {f \<in> set (glob_csv ?fs1 [''s'']). normalize_prefix (py_stem (last f)) = ''a''}
          = {[''s''] @ [''a_2024_01.csv''], [''s''] @ [''a_2024_02.csv'']}
      \<and> node_at ?fs1 ([''s''] @ [''a_2024_01.csv'']) = Some (File ?c1)
      \<and> node_at ?fs1 ([''s''] @ [''a_2024_02.csv'']) = Some (File ?c2)
      \<and> length (text_lines (universal_newlines ?c1)) = 2
      \<and> (last ?c1 = char_LF \<or> last ?c1 = char_CR)
      \<and> length (text_lines (universal_newlines ?c2)) = 3
      \<and> \<not> is_dir ?fs1 (target_of [''o''] ''a'')"
    unfolding g by (auto simp: n is_dir_def node_at_def target_of_def char_LF_def char_CR_def)
  have ps: "path_str (target_of [''o''] ''a'') = ''o/a.csv''"
    by (simp add: path_str_def target_of_def)
  note t = merge_csv_files_entries [OF mk, where source_path = "[''s'']"
      and prefix_names = "[''a'']" and ?c1.0 = ?c1 and ?c2.0 = ?c2]
  from mp[OF t[THEN conjunct2] h] obtain w' where r: "merge_csv_files ?w [''s''] [''o''] [''a'']
      = (w', Inr [''a'' \<mapsto> \<lparr>output_file = path_str (target_of [''o''] ''a''),
                              files_merged = 2, lines = 5\<rparr>])"
    by (rule exE)
  have e: "[''a'' \<mapsto> \<lparr>output_file = path_str (target_of [''o''] ''a''),
                              files_merged = 2, lines = 5\<rparr>] ''a''
      = Some \<lparr>output_file = path_str (target_of [''o''] ''a''), files_merged = 2, lines = 5\<rparr>"
    by simp
  from t[THEN conjunct1, rule_format, OF conjI[OF r e]]
  have "\<exists>text. read_text (files w') (target_of [''o''] ''a'') = Inr text
      \<and> lines \<lparr>output_file = path_str (target_of [''o''] ''a''), files_merged = 2, lines = 5\<rparr>
          = length (text_lines text)"
    by (elim conjE)
  then have "\<exists>text. read_text (files w') [''o'', ''a.csv''] = Inr text \<and> length (text_lines text) = 5"
    by (auto simp: target_of_def)
  with r ps mk show ?thesis by auto
qed

section \<open>Results on \<open>merge_csv_files\<close>: enumeration and contents\<close>

lemma glob_csv_set:
  assumes "is_dir fs d"
  shows "set (glob_csv fs d)
           = {p. p \<noteq> [] \<and> butlast p = d \<and> suffix ''.csv'' (last p) \<and> node_at fs p \<noteq> None}"
proof -
  have "p \<in> fst ` set fs \<longleftrightarrow> node_at fs p \<noteq> None" if "p \<noteq> []" for p
    using that by (simp add: node_at_def map_of_eq_None_iff)
  then show ?thesis
    using assms by (auto simp: glob_csv_def dir_entries_def fnmatch_csv_def)
qed

lemma mkdir_parents_content:
  assumes "mkdir_parents fs p = Inr fs'"
  shows "content_of fs' q = content_of fs q"
proof (cases "node_at fs' q = node_at fs q")
  case True
  then show ?thesis by (rule content_of_cong)
next
  case False
  then have "node_at fs q = None \<and> node_at fs' q = Some Dir"
    using assms mkdir_walk_changes[of fs "[]" p fs' q] unfolding mkdir_parents_def by blast
  then show ?thesis by (simp add: content_of_def)
qed

lemma merged_text_mkdir:
  "mkdir_parents fs p = Inr fs' \<Longrightarrow> merged_text fs' ms = merged_text fs ms"
  by (simp add: merged_text_def mkdir_parents_content)

lemma merge_csv_files_contents_general:
  assumes mk: "mkdir_parents (files w) out = Inr fs1"
    and r: "merge_csv_files w src out ps = (w', Inr m)"
    and na: "\<And>q. q \<in> set ps \<Longrightarrow> target_of out q \<notin> set (glob_csv fs1 src)"
    and d: "p \<in> dom m"
  shows "node_at (files w') (target_of out p)
           = Some (File (merged_text fs1 (matched_files (sort (glob_csv fs1 src)) p)))"
proof -
  let ?all = "sort (glob_csv fs1 src)"
  let ?I = "\<lambda>v (res :: merge_result).
              (\<forall>f \<in> set ?all. node_at (files v) f = node_at fs1 f)
            \<and> (\<forall>q \<in> dom res. node_at (files v) (target_of out q)
                                = Some (File (merged_text fs1 (matched_files ?all q))))"
  from merge_csv_files_loop[OF mk r] d
  have l: "merge_loop out ?all ps \<lparr>files = fs1, stdout = stdout w\<rparr> Map.empty = (w', Inr m)"
    by auto
  have "?I w' m"
    using l
  proof (rule merge_loop_invariant)
    show "?I \<lparr>files = fs1, stdout = stdout w\<rparr> Map.empty" by simp
  next
    fix q v res v1 res1
    assume q: "q \<in> set ps" and i: "?I v res"
      and m1: "merge_one out ?all q v res = (v1, Inr res1)"
    show "?I v1 res1"
    proof (cases "matched_files ?all q = []")
      case True
      then show ?thesis using i m1 by (simp add: merge_one_skip)
    next
      case False
      let ?cur = "target_of out q"
      let ?fso = "AList.update ?cur (File []) (files v)"
      from merge_one_Inr[OF m1 False] obtain written
        where wr: "written = merged_text ?fso (matched_files ?all q)"
          and f: "files v1 = AList.update ?cur (File written) ?fso"
          and res1: "\<exists>info. res1 = res(q \<mapsto> info)"
        by blast
      have cur: "?cur \<notin> set ?all" using na[OF q] by simp
      have src: "node_at (files v1) g = node_at fs1 g" if "g \<in> set ?all" for g
      proof -
        have "g \<noteq> ?cur" using that cur by blast
        then have "node_at (files v1) g = node_at (files v) g" by (simp add: f node_at_update)
        then show ?thesis using i that by simp
      qed
      have "merged_text ?fso (matched_files ?all q) = merged_text fs1 (matched_files ?all q)"
      proof (rule merged_text_cong)
        fix g
        assume "g \<in> set (matched_files ?all q)"
        then have g: "g \<in> set ?all" by (simp add: matched_files_def)
        then have "g \<noteq> ?cur" using cur by blast
        then have "node_at ?fso g = node_at (files v) g" by (simp add: node_at_update)
        then show "node_at ?fso g = node_at fs1 g" using i g by simp
      qed
      then have wr1: "written = merged_text fs1 (matched_files ?all q)" using wr by simp
      have tgt: "node_at (files v1) (target_of out q')
                   = Some (File (merged_text fs1 (matched_files ?all q')))"
        if "q' \<in> dom res1" for q'
      proof (cases "q' = q")
        case True
        then show ?thesis by (simp add: f node_at_update wr1)
      next
        case False
        then have "q' \<in> dom res" using that res1 by auto
        moreover have "node_at (files v1) (target_of out q') = node_at (files v) (target_of out q')"
          using False by (simp add: f node_at_update)
        ultimately show ?thesis using i by simp
      qed
      from src tgt show ?thesis by blast
    qed
  qed
  then show ?thesis using d by blast
qed

text \<open>
  C8 does not hold as stated. The files are read and written in text mode, so a
  \<^verbatim>\<open>\r\n\<close> of a source file arrives as \<^verbatim>\<open>\n\<close> in the output. And when the output
  directory is the source directory and \<^verbatim>\<open>a.csv\<close> is itself the only file matching the
  prefix \<^verbatim>\<open>a\<close>, it is truncated before it is read, so that its content is lost.
\<close>

theorem merge_csv_files_contents_counterexample:
  "content_of
     (files (fst (merge_csv_files
        \<lparr>files = [([''s''], Dir), ([''s'', ''a_2024_01.csv''], File (''x'' @ [CHR 0x0D, CHR 0x0A]))],
          stdout = []\<rparr> [''s''] [''o''] [''a''])))
     [''o'', ''a.csv''] = ''x'' @ [CHR 0x0A]
   \<and> (case snd (merge_csv_files
        \<lparr>files = [([''s''], Dir), ([''s'', ''a.csv''], File ''x'')], stdout = []\<rparr>
        [''s''] [''s''] [''a'']) of Inl e \<Rightarrow> None | Inr m \<Rightarrow> map_option files_merged (m ''a''))
       = Some 1
   \<and> content_of
     (files (fst (merge_csv_files
        \<lparr>files = [([''s''], Dir), ([''s'', ''a.csv''], File ''x'')], stdout = []\<rparr>
        [''s''] [''s''] [''a''])))
     [''s'', ''a.csv''] = []"
  by code_simp

text \<open>
  C8, amended. The files enumerated are exactly the entries directly inside the source
  directory whose name ends with \<^verbatim>\<open>.csv\<close>, in ascending order of their paths and without
  repetition. Provided that no output file of a requested prefix is one of the enumerated
  files, the output file of every prefix in the summary holds, whatever it held before, the
  concatenation in that order of the texts of the matched files as they were before the
  call, each text as read in text mode: \<^verbatim>\<open>\r\n\<close> and \<^verbatim>\<open>\r\<close> replaced by \<^verbatim>\<open>\n\<close> and
  nothing else changed. For files without carriage returns it is the concatenation of
  their contents.
\<close>

theorem merge_csv_files_contents:
  assumes "mkdir_parents (files w) output_path = Inr fs1"
  shows "(is_dir fs1 source_path \<longrightarrow>
            sorted (sort (glob_csv fs1 source_path))
          \<and> distinct (sort (glob_csv fs1 source_path))
          \<and> set (sort (glob_csv fs1 source_path))
              = {p. p \<noteq> [] \<and> butlast p = source_path \<and> suffix ''.csv'' (last p)
                    \<and> node_at fs1 p \<noteq> None})
         \<and> (\<forall>w' m p.
              merge_csv_files w source_path output_path prefix_names = (w', Inr m)
              \<and> (\<forall>q \<in> set prefix_names. target_of output_path q \<notin> set (glob_csv fs1 source_path))
              \<and> p \<in> dom m \<longrightarrow>
              node_at (files w') (target_of output_path p)
                = Some (File (merged_text (files w)
                                (matched_files (sort (glob_csv fs1 source_path)) p))))
         \<and> (\<forall>csv_files. (\<forall>f \<in> set csv_files. char_CR \<notin> set (content_of (files w) f)) \<longrightarrow>
              merged_text (files w) csv_files = concat (map (content_of (files w)) csv_files))"
proof (intro conjI allI impI)
  assume "is_dir fs1 source_path"
  then show "set (sort (glob_csv fs1 source_path))
              = {p. p \<noteq> [] \<and> butlast p = source_path \<and> suffix ''.csv'' (last p)
                    \<and> node_at fs1 p \<noteq> None}"
    by (simp add: glob_csv_set)
  show "sorted (sort (glob_csv fs1 source_path))" by simp
  show "distinct (sort (glob_csv fs1 source_path))" by (simp add: glob_csv_distinct)
next
  fix w' m p
  assume a: "merge_csv_files w source_path output_path prefix_names = (w', Inr m)
              \<and> (\<forall>q \<in> set prefix_names. target_of output_path q \<notin> set (glob_csv fs1 source_path))
              \<and> p \<in> dom m"
  then have "node_at (files w') (target_of output_path p)
      = Some (File (merged_text fs1 (matched_files (sort (glob_csv fs1 source_path)) p)))"
    using assms by (intro merge_csv_files_contents_general) blast+
  then show "node_at (files w') (target_of output_path p)
                = Some (File (merged_text (files w)
                                (matched_files (sort (glob_csv fs1 source_path)) p)))"
    by (simp add: merged_text_mkdir[OF assms])
next
  fix csv_files
  assume "\<forall>f \<in> set csv_files. char_CR \<notin> set (content_of (files w) f)"
  then have "map (\<lambda>f. universal_newlines (content_of (files w) f)) csv_files
      = map (content_of (files w)) csv_files"
    by (intro map_cong refl) (simp add: universal_newlines_id)
  then show "merged_text (files w) csv_files = concat (map (content_of (files w)) csv_files)"
    unfolding merged_text_def by (rule arg_cong)
qed

theorem merge_csv_files_contents_witness:
  "mkdir_parents [([''s''], Dir), ([''s'', ''a_2024_02.csv''], File (''y'' @ [CHR 0x0A])),
                  ([''s'', ''a_2024_01.csv''], File (''x'' @ [CHR 0x0A])),
                  ([''s'', ''sub''], Dir), ([''s'', ''sub'', ''a_2024_03.csv''], File ''z''),
                  ([''s'', ''notes.txt''], File ''n''),
                  ([''o''], Dir), ([''o'', ''a.csv''], File ''old'')] [''o'']
     = Inr [([''s''], Dir), ([''s'', ''a_2024_02.csv''], File (''y'' @ [CHR 0x0A])),
            ([''s'', ''a_2024_01.csv''], File (''x'' @ [CHR 0x0A])),
            ([''s'', ''sub''], Dir), ([''s'', ''sub'', ''a_2024_03.csv''], File ''z''),
            ([''s'', ''notes.txt''], File ''n''),
            ([''o''], Dir), ([''o'', ''a.csv''], File ''old'')]
   \<and> sort (glob_csv [([''s''], Dir), ([''s'', ''a_2024_02.csv''], File (''y'' @ [CHR 0x0A])),
                  ([''s'', ''a_2024_01.csv''], File (''x'' @ [CHR 0x0A])),
                  ([''s'', ''sub''], Dir), ([''s'', ''sub'', ''a_2024_03.csv''], File ''z''),
                  ([''s'', ''notes.txt''], File ''n''),
                  ([''o''], Dir), ([''o'', ''a.csv''], File ''old'')] [''s''])
       = [[''s'', ''a_2024_01.csv''], [''s'', ''a_2024_02.csv'']]
   \<and> (\<exists>w' m. merge_csv_files
          \<lparr>files = [([''s''], Dir), ([''s'', ''a_2024_02.csv''], File (''y'' @ [CHR 0x0A])),
                  ([''s'', ''a_2024_01.csv''], File (''x'' @ [CHR 0x0A])),
                  ([''s'', ''sub''], Dir), ([''s'', ''sub'', ''a_2024_03.csv''], File ''z''),
                  ([''s'', ''notes.txt''], File ''n''),
                  ([''o''], Dir), ([''o'', ''a.csv''], File ''old'')], stdout = []\<rparr>
          [''s''] [''o''] [''a''] = (w', Inr m)
        \<and> node_at (files w') [''o'', ''a.csv''] = Some (File (''x'' @ [CHR 0x0A] @ ''y'' @ [CHR 0x0A])))"
proof -
  let ?fs = "[([''s''], Dir), ([''s'', ''a_2024_02.csv''], File (''y'' @ [CHR 0x0A])),
                  ([''s'', ''a_2024_01.csv''], File (''x'' @ [CHR 0x0A])),
                  ([''s'', ''sub''], Dir), ([''s'', ''sub'', ''a_2024_03.csv''], File ''z''),
                  ([''s'', ''notes.txt''], File ''n''),
                  ([''o''], Dir), ([''o'', ''a.csv''], File ''old'')]"
  let ?w = "\<lparr>files = ?fs, stdout = []\<rparr>"
  have mk: "mkdir_parents (files ?w) [''o''] = Inr ?fs"
    by (simp add: mkdir_parents_def node_at_def)
  have g: "glob_csv ?fs [''s''] = [[''s'', ''a_2024_02.csv''], [''s'', ''a_2024_01.csv'']]"
    by code_simp
  have sg: "sort (glob_csv ?fs [''s'']) = [[''s'', ''a_2024_01.csv''], [''s'', ''a_2024_02.csv'']]"
    by code_simp
  have n: "normalize_prefix (py_stem ''a_2024_01.csv'') = ''a''"
    "normalize_prefix (py_stem ''a_2024_02.csv'') = ''a''"
    by code_simp+
  have sd: "is_dir ?fs [''s'']" by (simp add: is_dir_def node_at_def)
  have "\<exists>w' m. merge_csv_files ?w [''s''] [''o''] [''a''] = (w', Inr m)"
    using mk
  proof (rule merge_csv_files_returns)
    fix f
    assume "f \<in> set (glob_csv ?fs [''s''])"
    then show "is_file ?fs f" unfolding g by (auto simp: is_file_def node_at_def)
  next
    fix p
    assume "p \<in> set [''a'']"
    then show "\<not> is_dir ?fs (target_of [''o''] p)"
      by (simp add: is_dir_def node_at_def target_of_def)
  qed
  then obtain w' m where r: "merge_csv_files ?w [''s''] [''o''] [''a''] = (w', Inr m)" by blast
  have "dom m = {p \<in> set [''a'']. \<exists>f \<in> set (glob_csv ?fs [''s'']).
                    normalize_prefix (py_stem (last f)) = p}"
    using mk r by (rule merge_csv_files_dom)
  then have d: "''a'' \<in> dom m" unfolding g by (simp add: n)
  have na: "\<forall>q \<in> set [''a'']. target_of [''o''] q \<notin> set (glob_csv ?fs [''s''])"
    unfolding g by (simp add: target_of_def)
  note t = merge_csv_files_contents [OF mk, where source_path = "[''s'']" and prefix_names = "[''a'']"]
  from t[THEN conjunct1] sd have "sorted (sort (glob_csv ?fs [''s'']))" by blast
  have mt: "merged_text (files ?w) (matched_files (sort (glob_csv ?fs [''s''])) ''a'')
      = ''x'' @ [CHR 0x0A] @ ''y'' @ [CHR 0x0A]"
    by code_simp
  from t[THEN conjunct2, THEN conjunct1, rule_format, OF conjI[OF r conjI[OF na d]]]
  have "node_at (files w') (target_of [''o''] ''a'')
      = Some (File (''x'' @ [CHR 0x0A] @ ''y'' @ [CHR 0x0A]))"
    unfolding mt .
  then have "node_at (files w') [''o'', ''a.csv''] = Some (File (''x'' @ [CHR 0x0A] @ ''y'' @ [CHR 0x0A]))"
    by (simp add: target_of_def)
  with mk sg r show ?thesis by auto
qed

end
